theory Spec2Isabelle
  imports Complex_Main
begin

section \<open>JavaScript strings and numbers\<close>

text \<open>
  A JavaScript string is a sequence of UTF-16 code units; \<open>length\<close>, \<open>substring\<close>,
  \<open>includes\<close> and regular expressions without the \<open>u\<close> flag all count code units.
  A code unit is modelled as an integer, a string as a list of them.
  \<open>ustr\<close> turns an ASCII literal into such a string.
\<close>

type_synonym jsstring = "int list"

definition ustr :: "string \<Rightarrow> jsstring" where
  "ustr s = map of_char s"

abbreviation (input) DQUOTE :: int where "DQUOTE \<equiv> 34"
abbreviation (input) BACKSLASH :: int where "BACKSLASH \<equiv> 92"

text \<open>
  A JavaScript number is an IEEE 754 double: NaN, an infinity or a finite value, which
  is a rational number. The two zeros are one value here, \<open>Num 0\<close>: the program never
  divides by a zero and never looks at the sign of one. A decimal literal of the
  source, such as the confidence \<open>0.95\<close>, is written \<open>Num 0.95\<close>; these constants are
  only stored in results and never enter an arithmetic operation.
\<close>

datatype jsnum = NaN | PosInf | NegInf | Num real

text \<open>A value as \<open>JSON.parse\<close> can produce it, and \<open>undefined\<close> for a missing property.\<close>

datatype jsval =
    JUndefined
  | JNull
  | JBool bool
  | JNum jsnum
  | JStr jsstring
  | JArr "jsval list"
  | JObj "(jsstring \<times> jsval) list"

subsection \<open>Character classes\<close>

definition is_digit :: "int \<Rightarrow> bool" where \<comment> \<open>\<open>\d\<close>\<close>
  "is_digit c \<longleftrightarrow> 48 \<le> c \<and> c \<le> 57"

definition is_space :: "int \<Rightarrow> bool" where \<comment> \<open>\<open>\s\<close>: WhiteSpace and LineTerminator\<close>
  "is_space c \<longleftrightarrow>
     c = 9 \<or> c = 10 \<or> c = 11 \<or> c = 12 \<or> c = 13 \<or> c = 32 \<or> c = 160 \<or> c = 5760 \<or>
     (8192 \<le> c \<and> c \<le> 8202) \<or> c = 8232 \<or> c = 8233 \<or> c = 8239 \<or> c = 8287 \<or>
     c = 12288 \<or> c = 65279"

definition is_alpha :: "int \<Rightarrow> bool" where \<comment> \<open>\<open>[a-zA-Z]\<close>\<close>
  "is_alpha c \<longleftrightarrow> (65 \<le> c \<and> c \<le> 90) \<or> (97 \<le> c \<and> c \<le> 122)"

definition chr :: "int \<Rightarrow> int \<Rightarrow> bool" where \<comment> \<open>the code unit itself\<close>
  "chr n c \<longleftrightarrow> c = n"

definition lit :: "char \<Rightarrow> int \<Rightarrow> bool" where \<comment> \<open>an ASCII character\<close>
  "lit a c \<longleftrightarrow> c = of_char a"

definition one_of :: "jsstring \<Rightarrow> int \<Rightarrow> bool" where \<comment> \<open>\<open>[...]\<close>\<close>
  "one_of cs c \<longleftrightarrow> c \<in> set cs"

definition none_of :: "jsstring \<Rightarrow> int \<Rightarrow> bool" where \<comment> \<open>\<open>[^...]\<close>\<close>
  "none_of cs c \<longleftrightarrow> c \<notin> set cs"

definition any_char :: "int \<Rightarrow> bool" where \<comment> \<open>\<open>[\s\S]\<close>\<close>
  "any_char c \<longleftrightarrow> True"

definition ascii_upper :: "int \<Rightarrow> int" where
  "ascii_upper c = (if 97 \<le> c \<and> c \<le> 122 then c - 32 else c)"

definition ilit :: "char \<Rightarrow> int \<Rightarrow> bool" where
  \<comment> \<open>an ASCII character under the \<open>i\<close> flag: without the \<open>u\<close> flag, no code unit
      above 127 is canonicalised to an ASCII letter\<close>
  "ilit a c \<longleftrightarrow> ascii_upper c = ascii_upper (of_char a)"

subsection \<open>String methods\<close>

definition trim :: "jsstring \<Rightarrow> jsstring" where
  "trim s = rev (dropWhile is_space (rev (dropWhile is_space s)))"

fun starts_with :: "jsstring \<Rightarrow> jsstring \<Rightarrow> bool" where
  "starts_with s [] = True"
| "starts_with [] (p # ps) = False"
| "starts_with (c # cs) (p # ps) = (c = p \<and> starts_with cs ps)"

fun str_includes :: "jsstring \<Rightarrow> jsstring \<Rightarrow> bool" where \<comment> \<open>\<open>s.includes(sub)\<close>\<close>
  "str_includes [] sub = (sub = [])"
| "str_includes (c # cs) sub = (starts_with (c # cs) sub \<or> str_includes cs sub)"

definition substring0 :: "jsstring \<Rightarrow> nat \<Rightarrow> jsstring" where \<comment> \<open>\<open>s.substring(0, n)\<close>\<close>
  "substring0 s n = take n s"

text \<open>
  \<open>toLowerCase\<close> is only ever followed by \<open>includes\<close> of an ASCII keyword in this
  program. The model maps \<open>A-Z\<close> to \<open>a-z\<close> and the two code units above 127 whose
  lower case contains an ASCII letter (U+0130 to \<open>i\<close> U+0307, the Kelvin sign U+212A
  to \<open>k\<close>); every other code unit lower-cases to code units above 127 and is kept as
  it is, which no ASCII keyword search can tell apart.
\<close>

definition lower_unit :: "int \<Rightarrow> jsstring" where
  "lower_unit c =
     (if 65 \<le> c \<and> c \<le> 90 then [c + 32]
      else if c = 304 then [105, 775]
      else if c = 8490 then [107]
      else [c])"

definition toLowerCase :: "jsstring \<Rightarrow> jsstring" where
  "toLowerCase s = concat (map lower_unit s)"

section \<open>Numbers\<close>

text \<open>
  A finite double is kept as the real number it denotes, and every operation that
  rounds in JavaScript rounds in the model. \<open>fl x\<close> is the Number value for the real
  \<open>x\<close>: the double nearest to \<open>x\<close>, the one with the even significand when two are
  equally near, an infinity from \<open>2^1024 - 2^970\<close> on. Below \<open>2^-1022\<close> the doubles are
  \<open>2^-1074\<close> apart; elsewhere a double has 53 significant bits, so that in the binade
  \<open>2^e \<le> x < 2^(e+1)\<close> the doubles are \<open>2^(e-52)\<close> apart.
\<close>

function bit_length :: "int \<Rightarrow> int" where \<comment> \<open>the number of binary digits\<close>
  "bit_length n = (if n \<le> 0 then 0 else 1 + bit_length (n div 2))"
  by pat_completeness auto
termination
  by (relation "measure nat") auto

declare bit_length.simps [simp del]

definition pow2 :: "int \<Rightarrow> real" where
  "pow2 e = (if 0 \<le> e then 2 ^ nat e else 1 / 2 ^ nat (- e))"

definition binade :: "real \<Rightarrow> int" where
  \<comment> \<open>for \<open>x > 0\<close>, the exponent \<open>e\<close> with \<open>2^e \<le> x < 2^(e+1)\<close>\<close>
  "binade x =
     (if 1 \<le> x then bit_length \<lfloor>x\<rfloor> - 1 else - bit_length (\<lceil>1 / x\<rceil> - 1))"

definition round_half_even :: "real \<Rightarrow> int" where
  "round_half_even x =
     (let q = \<lfloor>x\<rfloor>; r = x - of_int q
      in if r < 1 / 2 then q else if 1 / 2 < r then q + 1 else if even q then q else q + 1)"

definition js_neg :: "jsnum \<Rightarrow> jsnum" where \<comment> \<open>\<open>-a\<close>\<close>
  "js_neg a =
     (case a of NaN \<Rightarrow> NaN | PosInf \<Rightarrow> NegInf | NegInf \<Rightarrow> PosInf | Num x \<Rightarrow> Num (- x))"

definition round_magnitude :: "real \<Rightarrow> jsnum" where
  \<comment> \<open>for \<open>a > 0\<close>. The significand \<open>m\<close> has at most 53 bits, or is \<open>2^53\<close> when rounding
      carries into the next binade; the largest double is \<open>(2^53 - 1) * 2^971\<close>\<close>
  "round_magnitude a =
     (let e = max (binade a) (- 1022);
          ulp = pow2 (e - 52);
          m = round_half_even (a / ulp)
      in if 1024 \<le> e \<or> (e = 1023 \<and> m = 2 ^ 53) then PosInf else Num (of_int m * ulp))"

definition fl :: "real \<Rightarrow> jsnum" where
  "fl x =
     (if x = 0 then Num 0
      else if 0 < x then round_magnitude x
      else js_neg (round_magnitude (- x)))"

subsection \<open>Arithmetic and comparison\<close>

definition js_add :: "jsnum \<Rightarrow> jsnum \<Rightarrow> jsnum" where \<comment> \<open>\<open>a + b\<close> on numbers\<close>
  "js_add a b =
     (case (a, b) of
        (NaN, _) \<Rightarrow> NaN
      | (_, NaN) \<Rightarrow> NaN
      | (PosInf, NegInf) \<Rightarrow> NaN
      | (NegInf, PosInf) \<Rightarrow> NaN
      | (PosInf, _) \<Rightarrow> PosInf
      | (_, PosInf) \<Rightarrow> PosInf
      | (NegInf, _) \<Rightarrow> NegInf
      | (_, NegInf) \<Rightarrow> NegInf
      | (Num x, Num y) \<Rightarrow> fl (x + y))"

definition js_sub :: "jsnum \<Rightarrow> jsnum \<Rightarrow> jsnum" where \<comment> \<open>\<open>a - b\<close>\<close>
  "js_sub a b = js_add a (js_neg b)"

definition js_eq :: "jsnum \<Rightarrow> jsnum \<Rightarrow> bool" where \<comment> \<open>\<open>a === b\<close>: NaN equals nothing\<close>
  "js_eq a b \<longleftrightarrow> a \<noteq> NaN \<and> b \<noteq> NaN \<and> a = b"

definition js_le :: "jsnum \<Rightarrow> jsnum \<Rightarrow> bool" where \<comment> \<open>\<open>a <= b\<close>, false when either is NaN\<close>
  "js_le a b =
     (case (a, b) of
        (NaN, _) \<Rightarrow> False
      | (_, NaN) \<Rightarrow> False
      | (NegInf, _) \<Rightarrow> True
      | (_, PosInf) \<Rightarrow> True
      | (Num x, Num y) \<Rightarrow> x \<le> y
      | _ \<Rightarrow> False)"

definition js_ge :: "jsnum \<Rightarrow> jsnum \<Rightarrow> bool" where \<comment> \<open>\<open>a >= b\<close>\<close>
  "js_ge a b = js_le b a"

definition Math_min :: "jsnum \<Rightarrow> jsnum \<Rightarrow> jsnum" where
  "Math_min a b = (if a = NaN \<or> b = NaN then NaN else if js_le a b then a else b)"

definition Math_max :: "jsnum \<Rightarrow> jsnum \<Rightarrow> jsnum" where
  "Math_max a b = (if a = NaN \<or> b = NaN then NaN else if js_le a b then b else a)"

definition Math_round :: "jsnum \<Rightarrow> jsnum" where
  \<comment> \<open>the nearest integer, the larger one of two equally near; exact on every double\<close>
  "Math_round a = (case a of Num x \<Rightarrow> Num (of_int \<lfloor>x + 1 / 2\<rfloor>) | _ \<Rightarrow> a)"

definition num_or :: "jsnum \<Rightarrow> jsnum \<Rightarrow> jsnum" where
  \<comment> \<open>\<open>a || d\<close> on numbers: NaN and zero are falsy\<close>
  "num_or a d = (if a = NaN \<or> a = Num 0 then d else a)"

subsection \<open>Numbers as text\<close>

text \<open>
  \<open>Number.prototype.toString\<close> in radix 10 (ECMA-262, \<open>Number::toString\<close>): the digits
  are those of the shortest decimal \<open>s * 10^(n-k)\<close>, with \<open>k\<close> digits, whose Number
  value is the double itself, the nearest such decimal when there are several. With
  \<open>k\<close> digits only the two multiples of \<open>10^(n-k)\<close> around the double can be nearest,
  and 17 digits identify every double.
\<close>

function decimal_digits :: "int \<Rightarrow> jsstring" where \<comment> \<open>of an integer that is not negative\<close>
  "decimal_digits n =
     (if n < 10 then [48 + n] else decimal_digits (n div 10) @ [48 + n mod 10])"
  by pat_completeness auto
termination
  by (relation "measure nat") auto

declare decimal_digits.simps [simp del]

definition pow10 :: "int \<Rightarrow> real" where
  "pow10 e = (if 0 \<le> e then 10 ^ nat e else 1 / 10 ^ nat (- e))"

definition decimal_exponent :: "real \<Rightarrow> int" where
  \<comment> \<open>for \<open>x > 0\<close>, the \<open>n\<close> with \<open>10^(n-1) \<le> x < 10^n\<close>\<close>
  "decimal_exponent x =
     (if 1 \<le> x then int (length (decimal_digits \<lfloor>x\<rfloor>))
      else 1 - int (length (decimal_digits (\<lceil>1 / x\<rceil> - 1))))"

fun shortest_digits :: "real \<Rightarrow> int \<Rightarrow> nat \<Rightarrow> nat \<Rightarrow> int \<times> int" where
  \<comment> \<open>\<open>(s, q)\<close> with \<open>s * 10^q\<close> the decimal sought, trying \<open>k\<close>, \<open>k + 1\<close>, ... digits\<close>
  "shortest_digits x n k 0 = (\<lfloor>x / pow10 (n - int k)\<rfloor>, n - int k)"
| "shortest_digits x n k (Suc fuel) =
     (let q = n - int k;
          lo = \<lfloor>x / pow10 q\<rfloor>;
          hi = lo + 1;
          lo_ok = (fl (of_int lo * pow10 q) = Num x);
          hi_ok = (fl (of_int hi * pow10 q) = Num x);
          lo_err = x - of_int lo * pow10 q;
          hi_err = of_int hi * pow10 q - x
      in if lo_ok \<and> hi_ok then
           (if lo_err < hi_err \<or> (lo_err = hi_err \<and> even lo) then (lo, q) else (hi, q))
         else if lo_ok then (lo, q)
         else if hi_ok then (hi, q)
         else shortest_digits x n (Suc k) fuel)"

definition positive_to_string :: "real \<Rightarrow> jsstring" where
  "positive_to_string x =
     (let (s, q) = shortest_digits x (decimal_exponent x) 1 17;
          all_digits = decimal_digits s;
          ds = rev (dropWhile (\<lambda>c. c = 48) (rev all_digits));
          k = int (length ds);
          n = int (length all_digits) + q
      in if k \<le> n \<and> n \<le> 21 then ds @ replicate (nat (n - k)) 48
         else if 0 < n \<and> n \<le> 21 then take (nat n) ds @ ustr ''.'' @ drop (nat n) ds
         else if - 6 < n \<and> n \<le> 0 then ustr ''0.'' @ replicate (nat (- n)) 48 @ ds
         else
           let e = n - 1;
               exponent = (if e < 0 then ustr ''e-'' else ustr ''e+'') @ decimal_digits \<bar>e\<bar>
           in if k = 1 then ds @ exponent
              else [hd ds] @ ustr ''.'' @ tl ds @ exponent)"

definition number_to_string :: "jsnum \<Rightarrow> jsstring" where
  \<comment> \<open>\<open>String(n)\<close>, and \<open>n\<close> in a template literal\<close>
  "number_to_string n =
     (case n of
        NaN \<Rightarrow> ustr ''NaN''
      | PosInf \<Rightarrow> ustr ''Infinity''
      | NegInf \<Rightarrow> ustr ''-Infinity''
      | Num x \<Rightarrow>
          if x = 0 then ustr ''0''
          else if x < 0 then ustr ''-'' @ positive_to_string (- x)
          else positive_to_string x)"

subsection \<open>\<open>parseInt\<close>\<close>

text \<open>
  \<open>parseInt\<close> is applied only to captures of \<open>(\d+)\<close>: there it reads the digits up to
  the first code unit that is no digit and returns the Number value for their decimal
  value, NaN when there is no digit.
\<close>

definition digits_value :: "jsstring \<Rightarrow> int" where \<comment> \<open>the decimal value of a run of digits\<close>
  "digits_value s = foldl (\<lambda>a c. 10 * a + (c - 48)) 0 s"

definition parseInt :: "jsstring \<Rightarrow> jsnum" where
  "parseInt s =
     (let digits = takeWhile is_digit s
      in if digits = [] then NaN else fl (of_int (digits_value digits)))"

section \<open>Regular expressions\<close>

text \<open>
  The patterns of the program are kept as syntax trees and run by one backtracking
  matcher. Every quantifier in the source (\<open>*\<close>, \<open>+\<close>, \<open>?\<close>) is applied to a single
  character or character class, so the quantifier nodes carry a class. An optional
  group \<open>(r)?\<close> is \<open>Alt r Eps\<close>.
\<close>

datatype regex =
    Cls "int \<Rightarrow> bool"
  | Star "int \<Rightarrow> bool"
  | Plus "int \<Rightarrow> bool"
  | Opt "int \<Rightarrow> bool"
  | Seq regex regex
  | Alt regex regex
  | Grp nat regex
  | Backref nat
  | Bol
  | Eol
  | Eps

type_synonym captures = "nat \<rightharpoonup> jsstring"

text \<open>A matcher state: the index reached, the rest of the input, the groups captured.\<close>

type_synonym mstate = "nat \<times> jsstring \<times> captures"

text \<open>
  \<open>rmatch r st\<close> lists every way \<open>r\<close> can match at \<open>st\<close>, in the order in which a
  backtracking engine tries them: a greedy quantifier offers its longest match first,
  an alternative its left branch first. The head of the list is the match that
  JavaScript reports.
\<close>

fun greedy :: "(int \<Rightarrow> bool) \<Rightarrow> nat \<Rightarrow> jsstring \<Rightarrow> captures \<Rightarrow> mstate list" where
  "greedy p i [] g = [(i, [], g)]"
| "greedy p i (c # cs) g =
     (if p c then greedy p (Suc i) cs g @ [(i, c # cs, g)] else [(i, c # cs, g)])"

fun rmatch :: "regex \<Rightarrow> mstate \<Rightarrow> mstate list" where
  "rmatch (Cls p) (i, s, g) =
     (case s of [] \<Rightarrow> [] | c # cs \<Rightarrow> if p c then [(Suc i, cs, g)] else [])"
| "rmatch (Star p) (i, s, g) = greedy p i s g"
| "rmatch (Plus p) (i, s, g) =
     (case s of [] \<Rightarrow> [] | c # cs \<Rightarrow> if p c then greedy p (Suc i) cs g else [])"
| "rmatch (Opt p) (i, s, g) =
     (case s of [] \<Rightarrow> [(i, s, g)]
      | c # cs \<Rightarrow> if p c then [(Suc i, cs, g), (i, s, g)] else [(i, s, g)])"
| "rmatch (Seq a b) st = concat (map (rmatch b) (rmatch a st))"
| "rmatch (Alt a b) st = rmatch a st @ rmatch b st"
| "rmatch (Grp n r) (i, s, g) =
     map (\<lambda>(j, t, h). (j, t, h(n \<mapsto> take (j - i) s))) (rmatch r (i, s, g))"
| "rmatch (Backref n) (i, s, g) =
     (case g n of None \<Rightarrow> [(i, s, g)]
      | Some w \<Rightarrow> if take (length w) s = w then [(i + length w, drop (length w) s, g)] else [])"
| "rmatch Bol (i, s, g) = (if i = 0 then [(i, s, g)] else [])"
| "rmatch Eol (i, s, g) = (if s = [] then [(i, s, g)] else [])"
| "rmatch Eps st = [st]"

definition seqs :: "regex list \<Rightarrow> regex" where
  "seqs rs = foldr Seq rs Eps"

definition lits :: "string \<Rightarrow> regex" where \<comment> \<open>a run of ASCII characters\<close>
  "lits s = seqs (map (\<lambda>a. Cls (lit a)) s)"

definition ilits :: "string \<Rightarrow> regex" where \<comment> \<open>the same under the \<open>i\<close> flag\<close>
  "ilits s = seqs (map (\<lambda>a. Cls (ilit a)) s)"

record rmatch_result =
  m_index :: nat
  m_text :: jsstring
  m_groups :: captures

text \<open>\<open>RegExp.prototype.exec\<close> without the \<open>g\<close> flag: the first start index with a match.\<close>

fun exec_from :: "regex \<Rightarrow> nat \<Rightarrow> jsstring \<Rightarrow> rmatch_result option" where
  "exec_from r i [] =
     (case rmatch r (i, [], Map.empty) of
        [] \<Rightarrow> None
      | (j, t, g) # _ \<Rightarrow> Some \<lparr>m_index = i, m_text = [], m_groups = g\<rparr>)"
| "exec_from r i (c # cs) =
     (case rmatch r (i, c # cs, Map.empty) of
        [] \<Rightarrow> exec_from r (Suc i) cs
      | (j, t, g) # _ \<Rightarrow> Some \<lparr>m_index = i, m_text = take (j - i) (c # cs), m_groups = g\<rparr>)"

definition regex_exec :: "regex \<Rightarrow> jsstring \<Rightarrow> rmatch_result option" where
  \<comment> \<open>\<open>s.match(r)\<close> for a pattern without the \<open>g\<close> flag\<close>
  "regex_exec r s = exec_from r 0 s"

definition regex_test :: "regex \<Rightarrow> jsstring \<Rightarrow> bool" where
  "regex_test r s \<longleftrightarrow> regex_exec r s \<noteq> None"

definition capture :: "rmatch_result \<Rightarrow> nat \<Rightarrow> jsstring" where
  \<comment> \<open>\<open>match[n]\<close>; every group read by the program takes part in every match of its
      pattern, or is tested first\<close>
  "capture m n = (case m_groups m n of Some w \<Rightarrow> w | None \<Rightarrow> [])"

definition regex_replace :: "regex \<Rightarrow> jsstring \<Rightarrow> jsstring \<Rightarrow> jsstring" where
  \<comment> \<open>\<open>s.replace(r, repl)\<close> without the \<open>g\<close> flag; no replacement text of the program
      contains \<open>$\<close>\<close>
  "regex_replace r repl s =
     (case regex_exec r s of
        None \<Rightarrow> s
      | Some m \<Rightarrow> take (m_index m) s @ repl @ drop (m_index m + length (m_text m)) s)"

text \<open>
  With the \<open>g\<close> flag every match is replaced, scanning left to right; after an empty
  match the scan moves on by one code unit.
\<close>

function replace_all_from :: "regex \<Rightarrow> jsstring \<Rightarrow> nat \<Rightarrow> jsstring \<Rightarrow> jsstring" where
  "replace_all_from r repl i [] =
     (case rmatch r (i, [], Map.empty) of [] \<Rightarrow> [] | _ # _ \<Rightarrow> repl)"
| "replace_all_from r repl i (c # cs) =
     (case rmatch r (i, c # cs, Map.empty) of
        [] \<Rightarrow> c # replace_all_from r repl (Suc i) cs
      | (j, t, g) # _ \<Rightarrow>
          if j \<le> i then repl @ c # replace_all_from r repl (Suc i) cs
          else repl @ replace_all_from r repl j (drop (j - Suc i) cs))"
  by pat_completeness auto
termination
  by (relation "measure (\<lambda>(r, repl, i, s). length s)") auto

definition regex_replace_all :: "regex \<Rightarrow> jsstring \<Rightarrow> jsstring \<Rightarrow> jsstring" where
  "regex_replace_all r repl s = replace_all_from r repl 0 s"

text \<open>
  \<open>s.split(r)\<close> for a pattern without groups: \<open>q\<close> is the index tried, \<open>seg\<close> the text
  since the end of the last separator. A match that is empty and starts the segment
  is skipped.
\<close>

function split_loop :: "regex \<Rightarrow> nat \<Rightarrow> jsstring \<Rightarrow> jsstring \<Rightarrow> jsstring list" where
  "split_loop r q seg [] = [seg]"
| "split_loop r q seg (c # cs) =
     (case rmatch r (q, c # cs, Map.empty) of
        [] \<Rightarrow> split_loop r (Suc q) (seg @ [c]) cs
      | (e, t, g) # _ \<Rightarrow>
          if e \<le> q \<and> seg = [] then split_loop r (Suc q) (seg @ [c]) cs
          else seg # split_loop r e [] (drop (e - q) (c # cs)))"
  by pat_completeness auto
termination
  by (relation "measure (\<lambda>(r, q, seg, s). 2 * length s + (if seg = [] then 0 else 1))") auto

definition regex_split :: "regex \<Rightarrow> jsstring \<Rightarrow> jsstring list" where
  "regex_split r s =
     (if s = [] then (if rmatch r (0, [], Map.empty) = [] then [[]] else [])
      else split_loop r 0 [] s)"

section \<open>The heuristic validator\<close>

definition code_point :: "int \<Rightarrow> jsstring" where
  \<comment> \<open>the UTF-16 code units of a Unicode code point (a surrogate pair above U+FFFF)\<close>
  "code_point cp =
     (if cp < 0x10000 then [cp]
      else [0xD800 + (cp - 0x10000) div 0x400, 0xDC00 + (cp - 0x10000) mod 0x400])"

record StepValidationResult =
  isCorrect :: bool
  feedback :: jsstring
  explanation :: jsval
  confidence :: jsnum

text \<open>
  \<open>encouragements[Math.floor(Math.random() * encouragements.length)]\<close>: the draw
  \<open>rnd\<close> is the value of \<open>Math.random()\<close>, a double that is at least 0 and below 1. The
  product is rounded to a double; for such a draw it stays below the length, so the
  index is within the array.
\<close>

definition random_index :: "real \<Rightarrow> nat \<Rightarrow> nat" where
  \<comment> \<open>\<open>Math.floor(rnd * len)\<close>; a product that is no finite number indexes nothing\<close>
  "random_index rnd len = (case fl (rnd * real len) of Num x \<Rightarrow> nat \<lfloor>x\<rfloor> | _ \<Rightarrow> len)"

definition pick :: "jsstring list \<Rightarrow> real \<Rightarrow> jsstring" where
  "pick pool rnd = pool ! random_index rnd (length pool)"

subsection \<open>Mistake detectors\<close>

definition sign_error_test :: regex where \<comment> \<open>\<open>/^\d*x?\s*=\s*\d+\s*\+\s*\d+$/\<close>\<close>
  "sign_error_test =
     seqs [Bol, Star is_digit, Opt (lit CHR ''x''), Star is_space, Cls (lit CHR ''=''),
           Star is_space, Plus is_digit, Star is_space, Cls (lit CHR ''+''), Star is_space,
           Plus is_digit, Eol]"

definition sign_error_match :: regex where \<comment> \<open>\<open>/^(\d*)x?\s*=\s*(\d+)\s*\+\s*(\d+)$/\<close>\<close>
  "sign_error_match =
     seqs [Bol, Grp 1 (Star is_digit), Opt (lit CHR ''x''), Star is_space, Cls (lit CHR ''=''),
           Star is_space, Grp 2 (Plus is_digit), Star is_space, Cls (lit CHR ''+''),
           Star is_space, Grp 3 (Plus is_digit), Eol]"

definition arithmetic_match :: regex where \<comment> \<open>\<open>/^(\d+)\s*([+\-])\s*(\d+)\s*=\s*(\d+)$/\<close>\<close>
  "arithmetic_match =
     seqs [Bol, Grp 1 (Plus is_digit), Star is_space, Grp 2 (Cls (one_of (ustr ''+-''))),
           Star is_space, Grp 3 (Plus is_digit), Star is_space, Cls (lit CHR ''=''),
           Star is_space, Grp 4 (Plus is_digit), Eol]"

definition expected_value :: "rmatch_result \<Rightarrow> jsnum" where
  \<comment> \<open>\<open>op === '+' ? parseInt(num1) + parseInt(num2) : parseInt(num1) - parseInt(num2)\<close>\<close>
  "expected_value m =
     (if capture m 2 = ustr ''+'' then js_add (parseInt (capture m 1)) (parseInt (capture m 3))
      else js_sub (parseInt (capture m 1)) (parseInt (capture m 3)))"

definition sign_flip_explanation :: jsstring where
  "sign_flip_explanation =
     ustr ''When moving a positive term across the equals sign, it becomes negative.''"

definition checkForCommonMistakes :: "jsstring \<Rightarrow> StepValidationResult option" where
  "checkForCommonMistakes step =
     (let trimmed = trim step;
          sign_error =
            (if regex_test sign_error_test trimmed then
               (case regex_exec sign_error_match trimmed of
                  Some m \<Rightarrow>
                    Some \<lparr>isCorrect = False,
                          feedback = code_point 0x1F914 @ ustr '' Check signs: when moving '' @
                                     capture m 3 @ ustr '', it should become -'' @ capture m 3,
                          explanation = JStr sign_flip_explanation,
                          confidence = Num 0.85\<rparr>
                | None \<Rightarrow> None)
             else None)
      in case sign_error of
           Some res \<Rightarrow> Some res
         | None \<Rightarrow>
            (case regex_exec arithmetic_match trimmed of
               Some m \<Rightarrow>
                 if \<not> js_eq (expected_value m) (parseInt (capture m 4)) then
                   Some \<lparr>isCorrect = False,
                         feedback = code_point 0x274C @ ustr '' Arithmetic error: '' @
                                    capture m 1 @ ustr '' '' @
                                    capture m 2 @ ustr '' '' @ capture m 3 @ ustr '' = '' @
                                    number_to_string (expected_value m) @ ustr '', not '' @
                                    capture m 4,
                         explanation = JUndefined,
                         confidence = Num 0.95\<rparr>
                 else None
             | None \<Rightarrow> None))"

subsection \<open>Known-good algebra shapes\<close>

definition isolate_pattern :: regex where \<comment> \<open>\<open>/^\d*x?\s*=\s*\d+$/\<close>\<close>
  "isolate_pattern =
     seqs [Bol, Star is_digit, Opt (lit CHR ''x''), Star is_space, Cls (lit CHR ''=''),
           Star is_space, Plus is_digit, Eol]"

definition linear_pattern :: regex where \<comment> \<open>\<open>/^\d*x?\s*[+\-]\s*\d+\s*=\s*\d+$/\<close>\<close>
  "linear_pattern =
     seqs [Bol, Star is_digit, Opt (lit CHR ''x''), Star is_space, Cls (one_of (ustr ''+-'')),
           Star is_space, Plus is_digit, Star is_space, Cls (lit CHR ''=''), Star is_space,
           Plus is_digit, Eol]"

definition sum_pattern :: regex where \<comment> \<open>\<open>/^\d+\s*[+\-]\s*\d+\s*=?\s*\d*$/\<close>\<close>
  "sum_pattern =
     seqs [Bol, Plus is_digit, Star is_space, Cls (one_of (ustr ''+-'')), Star is_space,
           Plus is_digit, Star is_space, Opt (lit CHR ''=''), Star is_space, Star is_digit, Eol]"

definition quotient_pattern :: regex where \<comment> \<open>\<open>/^\d+\s*\/\s*\d+\s*=?\s*\d*$/\<close>\<close>
  "quotient_pattern =
     seqs [Bol, Plus is_digit, Star is_space, Cls (lit CHR ''/''), Star is_space,
           Plus is_digit, Star is_space, Opt (lit CHR ''=''), Star is_space, Star is_digit, Eol]"

definition substitution_pattern :: regex where \<comment> \<open>\<open>/^\d+\(\d+\)\s*[+\-]\s*\d+\s*=\s*\d+$/\<close>\<close>
  "substitution_pattern =
     seqs [Bol, Plus is_digit, Cls (lit CHR ''(''), Plus is_digit, Cls (lit CHR '')''),
           Star is_space, Cls (one_of (ustr ''+-'')), Star is_space, Plus is_digit,
           Star is_space, Cls (lit CHR ''=''), Star is_space, Plus is_digit, Eol]"

definition frac_pattern :: regex where \<comment> \<open>\<open>/^\\frac\{\d+\}\{\d+\}/\<close>\<close>
  "frac_pattern =
     seqs [Bol, Cls (chr BACKSLASH), lits ''frac{'', Plus is_digit, lits ''}{'',
           Plus is_digit, Cls (lit CHR ''}'')]"

definition equality_pattern :: regex where \<comment> \<open>\<open>/^\d+\s*=\s*\d+$/\<close>\<close>
  "equality_pattern =
     seqs [Bol, Plus is_digit, Star is_space, Cls (lit CHR ''=''), Star is_space,
           Plus is_digit, Eol]"

definition algebraPatterns :: "regex list" where
  "algebraPatterns =
     [isolate_pattern, linear_pattern, sum_pattern, quotient_pattern,
      substitution_pattern, frac_pattern, equality_pattern]"

definition isValidAlgebraStep :: "jsstring \<Rightarrow> bool" where
  \<comment> \<open>\<open>algebraPatterns.some(pattern => pattern.test(step.replace(/\s+/g, ' ').trim()))\<close>\<close>
  "isValidAlgebraStep step =
     list_ex (\<lambda>pattern. regex_test pattern (trim (regex_replace_all (Plus is_space) (ustr '' '') step)))
       algebraPatterns"

subsection \<open>Feedback for a known-good shape\<close>

text \<open>The \<open>encouragements\<close> array of each branch of \<open>getStepSpecificFeedback\<close>, in order.\<close>

definition found_x_pool :: "jsstring list" where \<comment> \<open>\<open>x = N\<close>\<close>
  "found_x_pool =
     [code_point 0x1F3AF @ ustr '' Perfect! You found the value of x!'',
      code_point 0x1F31F @ ustr '' Excellent! You solved for x!'',
      code_point 0x1F680 @ ustr '' Great work! You isolated the variable!'',
      code_point 0x1F48E @ ustr '' Outstanding! You found the solution!'']"

definition coefficient_pool :: "jsstring list" where \<comment> \<open>\<open>Nx = N\<close>\<close>
  "coefficient_pool =
     [code_point 0x2705 @ ustr '' Correct step!'',
      code_point 0x1F44D @ ustr '' Nice work!'',
      code_point 0x1F389 @ ustr '' Great progress!'',
      code_point 0x1F4AA @ ustr '' You're doing great!'']"

definition move_term_pool :: "jsstring list" where \<comment> \<open>moving terms\<close>
  "move_term_pool =
     [code_point 0x1F44D @ ustr '' Good move!'',
      code_point 0x1F3AF @ ustr '' Smart algebraic manipulation!'',
      code_point 0x2728 @ ustr '' Nice work isolating the variable!'',
      code_point 0x1F525 @ ustr '' Great step!'']"

definition arithmetic_pool :: "jsstring list" where \<comment> \<open>correct arithmetic\<close>
  "arithmetic_pool =
     [code_point 0x1F9EE @ ustr '' Correct!'',
      code_point 0x1F3AF @ ustr '' Perfect arithmetic!'',
      code_point 0x2B50 @ ustr '' Great calculation!'',
      code_point 0x1F4AF @ ustr '' Excellent math!'']"

definition division_pool :: "jsstring list" where \<comment> \<open>division steps\<close>
  "division_pool =
     [code_point 0x1F522 @ ustr '' Good!'',
      code_point 0x1F4CA @ ustr '' Nice division!'',
      code_point 0x1F3AF @ ustr '' Great work!'',
      code_point 0x2728 @ ustr '' Excellent!'']"

definition verification_pool :: "jsstring list" where \<comment> \<open>verification steps\<close>
  "verification_pool =
     [code_point 0x2713 @ ustr '' Perfect verification! Your check confirms the solution.'',
      code_point 0x1F389 @ ustr '' Excellent! You verified your answer correctly!'',
      code_point 0x1F31F @ ustr '' Outstanding! Your solution checks out!'',
      code_point 0x1F48E @ ustr '' Perfect! You double-checked your work!'']"

definition substitution_pool :: "jsstring list" where \<comment> \<open>substitution checks\<close>
  "substitution_pool =
     [code_point 0x1F50D @ ustr '' Excellent substitution check! You verified your answer.'',
      code_point 0x1F3AF @ ustr '' Perfect! You checked your solution!'',
      code_point 0x2B50 @ ustr '' Great verification! Your answer is correct!'',
      code_point 0x1F680 @ ustr '' Outstanding! You confirmed your solution!'']"

definition generic_pool :: "jsstring list" where \<comment> \<open>any other known-good shape\<close>
  "generic_pool =
     [code_point 0x2705 @ ustr '' Good mathematical step! Keep going.'',
      code_point 0x1F44D @ ustr '' Nice work! Continue solving.'',
      code_point 0x1F3AF @ ustr '' Great progress! Keep it up.'',
      code_point 0x1F4AA @ ustr '' You're doing well! Don't stop now.'',
      code_point 0x2728 @ ustr '' Excellent! You're on the right track.'',
      code_point 0x1F31F @ ustr '' Great job! Keep solving step by step.'']"

definition found_x_re :: regex where \<comment> \<open>\<open>/^x\s*=\s*\d+$/\<close>\<close>
  "found_x_re =
     seqs [Bol, Cls (lit CHR ''x''), Star is_space, Cls (lit CHR ''=''), Star is_space,
           Plus is_digit, Eol]"

definition coefficient_re :: regex where \<comment> \<open>\<open>/^\d+x\s*=\s*\d+$/\<close>\<close>
  "coefficient_re =
     seqs [Bol, Plus is_digit, Cls (lit CHR ''x''), Star is_space, Cls (lit CHR ''=''),
           Star is_space, Plus is_digit, Eol]"

definition move_term_re :: regex where \<comment> \<open>\<open>/^\d*x?\s*=\s*\d+\s*[+\-]\s*\d+$/\<close>\<close>
  "move_term_re =
     seqs [Bol, Star is_digit, Opt (lit CHR ''x''), Star is_space, Cls (lit CHR ''=''),
           Star is_space, Plus is_digit, Star is_space, Cls (one_of (ustr ''+-'')),
           Star is_space, Plus is_digit, Eol]"

definition arithmetic_test :: regex where \<comment> \<open>\<open>/^\d+\s*[+\-]\s*\d+\s*=\s*\d+$/\<close>\<close>
  "arithmetic_test =
     seqs [Bol, Plus is_digit, Star is_space, Cls (one_of (ustr ''+-'')), Star is_space,
           Plus is_digit, Star is_space, Cls (lit CHR ''=''), Star is_space, Plus is_digit, Eol]"

definition division_re :: regex where \<comment> \<open>\<open>/^\d+\s*\/\s*\d+/\<close>\<close>
  "division_re =
     seqs [Bol, Plus is_digit, Star is_space, Cls (lit CHR ''/''), Star is_space, Plus is_digit]"

definition frac_re :: regex where \<comment> \<open>\<open>/\\frac/\<close>\<close>
  "frac_re = Seq (Cls (chr BACKSLASH)) (lits ''frac'')"

definition verification_re :: regex where \<comment> \<open>\<open>/^(\d+)\s*=\s*\1$/\<close>\<close>
  "verification_re =
     seqs [Bol, Grp 1 (Plus is_digit), Star is_space, Cls (lit CHR ''=''), Star is_space,
           Backref 1, Eol]"

definition getStepSpecificFeedback :: "real \<Rightarrow> jsstring \<Rightarrow> StepValidationResult" where
  "getStepSpecificFeedback rnd step =
     (let trimmed = trim step;
          praise = (\<lambda>pool c. \<lparr>isCorrect = True, feedback = pick pool rnd,
                               explanation = JUndefined, confidence = Num c\<rparr>);
          arithmetic =
            (if regex_test arithmetic_test trimmed then
               (case regex_exec arithmetic_match trimmed of
                  Some m \<Rightarrow>
                    if js_eq (expected_value m) (parseInt (capture m 4)) then
                      Some (praise arithmetic_pool 0.95)
                    else
                      Some \<lparr>isCorrect = False,
                            feedback = code_point 0x1F914 @ ustr '' Check: '' @ capture m 1 @
                                       ustr '' '' @ capture m 2 @ ustr '' '' @ capture m 3 @
                                       ustr '' = '' @ number_to_string (expected_value m),
                            explanation = JUndefined,
                            confidence = Num 0.9\<rparr>
                | None \<Rightarrow> None)
             else None)
      in if regex_test found_x_re trimmed then praise found_x_pool 0.95
         else if regex_test coefficient_re trimmed then praise coefficient_pool 0.9
         else if regex_test move_term_re trimmed then praise move_term_pool 0.9
         else case arithmetic of
           Some res \<Rightarrow> res
         | None \<Rightarrow>
             if regex_test division_re trimmed \<or> regex_test frac_re trimmed then
               praise division_pool 0.85
             else if regex_test verification_re trimmed then praise verification_pool 0.95
             else if regex_test substitution_pattern trimmed then praise substitution_pool 0.9
             else praise generic_pool 0.8)"

subsection \<open>The ordered decision procedure\<close>

definition has_numbers_re :: regex where \<comment> \<open>\<open>/\d/\<close>\<close>
  "has_numbers_re = Cls is_digit"

definition has_variables_re :: regex where \<comment> \<open>\<open>/[a-zA-Z]/\<close>\<close>
  "has_variables_re = Cls is_alpha"

definition has_operations_re :: regex where \<comment> \<open>\<open>/[+\-*/^()]/\<close>\<close>
  "has_operations_re = Cls (one_of (ustr ''+-*/^()''))"

definition has_fractions_re :: regex where \<comment> \<open>\<open>/\\frac|\//\<close>\<close>
  "has_fractions_re = Alt (Seq (Cls (chr BACKSLASH)) (lits ''frac'')) (Cls (lit CHR ''/''))"

definition has_sqrt_re :: regex where \<comment> \<open>\<open>/\\sqrt|\<close> U+221A \<open>/\<close>\<close>
  "has_sqrt_re = Alt (Seq (Cls (chr BACKSLASH)) (lits ''sqrt'')) (Cls (chr 0x221A))"

definition fallbackValidation :: "real \<Rightarrow> jsstring \<Rightarrow> StepValidationResult" where
  "fallbackValidation rnd latex =
     (let trimmed = trim latex
      in case checkForCommonMistakes trimmed of
           Some mistakeCheck \<Rightarrow> mistakeCheck
         | None \<Rightarrow>
            (let hasEquals = str_includes trimmed (ustr ''='');
                 hasNumbers = regex_test has_numbers_re trimmed;
                 hasVariables = regex_test has_variables_re trimmed;
                 hasBasicOperations = regex_test has_operations_re trimmed;
                 hasFractions = regex_test has_fractions_re trimmed;
                 hasSquareRoot = regex_test has_sqrt_re trimmed
             in if isValidAlgebraStep trimmed then getStepSpecificFeedback rnd trimmed
                else if hasEquals \<and> (hasNumbers \<or> hasVariables) then
                  \<lparr>isCorrect = True, feedback = code_point 0x2705 @ ustr '' Valid equation!'',
                   explanation = JUndefined, confidence = Num 0.9\<rparr>
                else if (hasNumbers \<or> hasVariables \<or> hasFractions \<or> hasSquareRoot)
                        \<and> length trimmed > 0 then
                  \<lparr>isCorrect = True, feedback = code_point 0x2705 @ ustr '' Valid expression!'',
                   explanation = JUndefined, confidence = Num 0.85\<rparr>
                else if hasBasicOperations \<or> hasNumbers \<or> hasVariables then
                  \<lparr>isCorrect = True, feedback = code_point 0x1F44D @ ustr '' Good step!'',
                   explanation = JUndefined, confidence = Num 0.75\<rparr>
                else
                  \<lparr>isCorrect = False, feedback = code_point 0x1F914 @ ustr '' Write a complete equation.'',
                   explanation = JUndefined, confidence = Num 0.3\<rparr>))"

section \<open>Values, conversions and \<open>JSON.parse\<close>\<close>

subsection \<open>Numbers\<close>

definition decimal_value :: "int \<Rightarrow> int \<Rightarrow> real" where \<comment> \<open>\<open>m\<close> times ten to the \<open>e\<close>\<close>
  "decimal_value m e = (if 0 \<le> e then of_int m * 10 ^ nat e else of_int m / 10 ^ nat (- e))"

definition sign_of :: "jsstring \<Rightarrow> int" where
  "sign_of s = (if s = ustr ''-'' then - 1 else 1)"

definition hex_digit :: "int \<Rightarrow> bool" where \<comment> \<open>\<open>[0-9a-fA-F]\<close>\<close>
  "hex_digit c \<longleftrightarrow> is_digit c \<or> (65 \<le> c \<and> c \<le> 70) \<or> (97 \<le> c \<and> c \<le> 102)"

definition digit_value :: "int \<Rightarrow> int" where
  "digit_value c = (if is_digit c then c - 48 else if 97 \<le> c then c - 87 else c - 55)"

definition radix_value :: "int \<Rightarrow> jsstring \<Rightarrow> int" where
  "radix_value b s = foldl (\<lambda>a c. b * a + digit_value c) 0 s"

text \<open>
  \<open>Number(s)\<close> for a string, after the grammar \<open>StringNumericLiteral\<close>: white space
  around the literal is dropped, the empty string is 0, and the literal is
  \<open>Infinity\<close>, a decimal literal, each with an optional sign, or an unsigned binary,
  octal or hexadecimal integer. Anything else is NaN. The result is the Number value
  for the value of the literal. (ECMA-262 lets an implementation round a literal of
  more than 20 significant digits from its first 20 digits; V8 rounds the literal
  itself, and so does the model, here and in \<open>parseInt\<close>.)
\<close>

definition str_infinity_re :: regex where \<comment> \<open>\<open>^[+-]?Infinity$\<close>\<close>
  "str_infinity_re = seqs [Bol, Grp 1 (Opt (one_of (ustr ''+-''))), lits ''Infinity'', Eol]"

definition exponent_part :: regex where \<comment> \<open>\<open>([eE]([+-]?)(\d+))?\<close>, groups 4 and 5\<close>
  "exponent_part =
     Alt (seqs [Cls (one_of (ustr ''eE'')), Grp 4 (Opt (one_of (ustr ''+-''))), Grp 5 (Plus is_digit)])
         Eps"

definition str_decimal_re :: regex where
  \<comment> \<open>\<open>^([+-]?)((\d+)(\.(\d*))?|\.(\d+))([eE]([+-]?)(\d+))?$\<close>; group 2 holds the integer
      digits, group 3 the fraction digits of either branch\<close>
  "str_decimal_re =
     seqs [Bol, Grp 1 (Opt (one_of (ustr ''+-''))),
           Alt (seqs [Grp 2 (Plus is_digit),
                      Alt (Seq (Cls (lit CHR ''.'')) (Grp 3 (Star is_digit))) Eps])
               (seqs [Cls (lit CHR ''.''), Grp 3 (Plus is_digit)]),
           exponent_part, Eol]"

definition str_radix_re :: "jsstring \<Rightarrow> (int \<Rightarrow> bool) \<Rightarrow> regex" where
  \<comment> \<open>\<open>^0[xX][0-9a-fA-F]+$\<close> and its octal and binary forms\<close>
  "str_radix_re letters digit = seqs [Bol, Cls (lit CHR ''0''), Cls (one_of letters), Grp 1 (Plus digit), Eol]"

definition decimal_of_match :: "rmatch_result \<Rightarrow> real" where
  \<comment> \<open>the mathematical value of a decimal literal, before it is rounded to a double\<close>
  "decimal_of_match m =
     of_int (sign_of (capture m 1)) *
     decimal_value (digits_value (capture m 2 @ capture m 3))
       (sign_of (capture m 4) * digits_value (capture m 5) - int (length (capture m 3)))"

definition string_to_number :: "jsstring \<Rightarrow> jsnum" where
  "string_to_number str =
     (let s = trim str
      in if s = [] then Num 0
         else case regex_exec str_infinity_re s of
           Some m \<Rightarrow> (if capture m 1 = ustr ''-'' then NegInf else PosInf)
         | None \<Rightarrow>
         (case regex_exec str_decimal_re s of
           Some m \<Rightarrow> fl (decimal_of_match m)
         | None \<Rightarrow>
         (case regex_exec (str_radix_re (ustr ''xX'') hex_digit) s of
           Some m \<Rightarrow> fl (of_int (radix_value 16 (capture m 1)))
         | None \<Rightarrow>
         (case regex_exec (str_radix_re (ustr ''oO'') (\<lambda>c. 48 \<le> c \<and> c \<le> 55)) s of
           Some m \<Rightarrow> fl (of_int (radix_value 8 (capture m 1)))
         | None \<Rightarrow>
         (case regex_exec (str_radix_re (ustr ''bB'') (\<lambda>c. c = 48 \<or> c = 49)) s of
           Some m \<Rightarrow> fl (of_int (radix_value 2 (capture m 1)))
         | None \<Rightarrow> NaN)))))"

subsection \<open>Truthiness, property access, \<open>Number(v)\<close> and \<open>String(v)\<close>\<close>

fun truthy :: "jsval \<Rightarrow> bool" where
  "truthy JUndefined = False"
| "truthy JNull = False"
| "truthy (JBool b) = b"
| "truthy (JNum n) = (n \<noteq> NaN \<and> n \<noteq> Num 0)"
| "truthy (JStr s) = (s \<noteq> [])"
| "truthy (JArr xs) = True"
| "truthy (JObj kvs) = True"

definition get_prop :: "jsval \<Rightarrow> jsstring \<Rightarrow> jsval" where
  \<comment> \<open>\<open>parsed.key\<close>: with a repeated key \<open>JSON.parse\<close> keeps the last value; a missing
      property is \<open>undefined\<close>\<close>
  "get_prop v k =
     (case v of
        JObj kvs \<Rightarrow> (case map_of (rev kvs) k of Some x \<Rightarrow> x | None \<Rightarrow> JUndefined)
      | _ \<Rightarrow> JUndefined)"

fun join_with :: "jsstring \<Rightarrow> jsstring list \<Rightarrow> jsstring" where
  "join_with sep [] = []"
| "join_with sep [x] = x"
| "join_with sep (x # y # zs) = x @ sep @ join_with sep (y # zs)"

text \<open>
  \<open>String(v)\<close>. An array is joined with commas, \<open>null\<close> and \<open>undefined\<close> elements
  giving the empty text. A parsed object has no callable property of its own, so an
  own property \<open>toString\<close> hides \<open>Object.prototype.toString\<close> and the conversion
  throws a \<open>TypeError\<close> (\<open>None\<close>); \<open>valueOf\<close> never yields a primitive. Any other
  object gives \<open>[object Object]\<close>.
\<close>

fun js_String :: "jsval \<Rightarrow> jsstring option" where
  "js_String JUndefined = Some (ustr ''undefined'')"
| "js_String JNull = Some (ustr ''null'')"
| "js_String (JBool b) = Some (if b then ustr ''true'' else ustr ''false'')"
| "js_String (JNum n) = Some (number_to_string n)"
| "js_String (JStr s) = Some s"
| "js_String (JArr xs) =
     map_option (join_with (ustr '',''))
       (those (map (\<lambda>x. if x = JNull \<or> x = JUndefined then Some [] else js_String x) xs))"
| "js_String (JObj kvs) =
     (if ustr ''toString'' \<in> set (map fst kvs) then None else Some (ustr ''[object Object]''))"

text \<open>
  \<open>Number(v)\<close>, and the number that \<open>v >= 90\<close> compares. An array or object is
  first turned into a string, which may throw.
\<close>

definition to_number :: "jsval \<Rightarrow> jsnum option" where
  "to_number v =
     (case v of
        JUndefined \<Rightarrow> Some NaN
      | JNull \<Rightarrow> Some (Num 0)
      | JBool b \<Rightarrow> Some (Num (if b then 1 else 0))
      | JNum n \<Rightarrow> Some n
      | JStr s \<Rightarrow> Some (string_to_number s)
      | _ \<Rightarrow> map_option string_to_number (js_String v))"

subsection \<open>\<open>JSON.parse\<close>\<close>

text \<open>
  A recursive-descent reader for the JSON grammar (ECMA-404): \<open>None\<close> stands for the
  \<open>SyntaxError\<close> that \<open>JSON.parse\<close> throws. Every call uses up one unit of fuel and
  every second call at the latest reads a code unit, so twice the length of the text
  is fuel enough.
\<close>

definition json_ws :: "int \<Rightarrow> bool" where
  "json_ws c \<longleftrightarrow> c = 32 \<or> c = 9 \<or> c = 10 \<or> c = 13"

definition skip_ws :: "jsstring \<Rightarrow> jsstring" where
  "skip_ws s = dropWhile json_ws s"

text \<open>The text of a string after its opening quote, and what follows the closing quote.\<close>

fun json_string :: "jsstring \<Rightarrow> jsstring \<Rightarrow> (jsstring \<times> jsstring) option" where
  "json_string acc [] = None"
| "json_string acc (c # cs) =
     (if c = DQUOTE then Some (acc, cs)
      else if c < 32 then None
      else if c = BACKSLASH then
        (case cs of
           [] \<Rightarrow> None
         | e # rest \<Rightarrow>
             if e = DQUOTE \<or> e = BACKSLASH \<or> e = 47 then json_string (acc @ [e]) rest
             else if e = 98 then json_string (acc @ [8]) rest
             else if e = 102 then json_string (acc @ [12]) rest
             else if e = 110 then json_string (acc @ [10]) rest
             else if e = 114 then json_string (acc @ [13]) rest
             else if e = 116 then json_string (acc @ [9]) rest
             else if e = 117 \<and> 4 \<le> length rest \<and> list_all hex_digit (take 4 rest) then
               json_string (acc @ [radix_value 16 (take 4 rest)]) (drop 4 rest)
             else None)
      else json_string (acc @ [c]) cs)"

definition json_number_re :: regex where
  \<comment> \<open>\<open>(-?)(0|[1-9]\d*)(\.(\d+))?([eE]([+-]?)(\d+))?\<close>, read at the start of the text\<close>
  "json_number_re =
     seqs [Grp 1 (Opt (lit CHR ''-'')),
           Grp 2 (Alt (Cls (lit CHR ''0'')) (Seq (Cls (\<lambda>c. 49 \<le> c \<and> c \<le> 57)) (Star is_digit))),
           Alt (Seq (Cls (lit CHR ''.'')) (Grp 3 (Plus is_digit))) Eps,
           exponent_part]"

definition match_prefix :: "regex \<Rightarrow> jsstring \<Rightarrow> (rmatch_result \<times> jsstring) option" where
  "match_prefix r s =
     (case rmatch r (0, s, Map.empty) of
        [] \<Rightarrow> None
      | (j, t, g) # _ \<Rightarrow> Some (\<lparr>m_index = 0, m_text = take j s, m_groups = g\<rparr>, t))"

fun json_value :: "nat \<Rightarrow> jsstring \<Rightarrow> (jsval \<times> jsstring) option"
  and json_elements :: "nat \<Rightarrow> jsval list \<Rightarrow> jsstring \<Rightarrow> (jsval \<times> jsstring) option"
  and json_members :: "nat \<Rightarrow> (jsstring \<times> jsval) list \<Rightarrow> jsstring \<Rightarrow> (jsval \<times> jsstring) option"
where
  "json_value 0 s = None"
| "json_value (Suc n) s =
     (case skip_ws s of
        [] \<Rightarrow> None
      | c # cs \<Rightarrow>
          if c = 123 then
            (case skip_ws cs of
               [] \<Rightarrow> None
             | d # ds \<Rightarrow> if d = 125 then Some (JObj [], ds) else json_members n [] cs)
          else if c = 91 then
            (case skip_ws cs of
               [] \<Rightarrow> None
             | d # ds \<Rightarrow> if d = 93 then Some (JArr [], ds) else json_elements n [] cs)
          else if c = DQUOTE then
            (case json_string [] cs of
               None \<Rightarrow> None
             | Some (str, rest) \<Rightarrow> Some (JStr str, rest))
          else if starts_with (c # cs) (ustr ''true'') then Some (JBool True, drop 3 cs)
          else if starts_with (c # cs) (ustr ''false'') then Some (JBool False, drop 4 cs)
          else if starts_with (c # cs) (ustr ''null'') then Some (JNull, drop 3 cs)
          else
            (case match_prefix json_number_re (c # cs) of
               None \<Rightarrow> None
             | Some (m, rest) \<Rightarrow> Some (JNum (fl (decimal_of_match m)), rest)))"
| "json_elements 0 acc s = None"
| "json_elements (Suc n) acc s =
     (case json_value n s of
        None \<Rightarrow> None
      | Some (v, rest) \<Rightarrow>
          (case skip_ws rest of
             [] \<Rightarrow> None
           | c # cs \<Rightarrow>
               if c = 44 then json_elements n (acc @ [v]) cs
               else if c = 93 then Some (JArr (acc @ [v]), cs)
               else None))"
| "json_members 0 acc s = None"
| "json_members (Suc n) acc s =
     (case skip_ws s of
        [] \<Rightarrow> None
      | q # cs \<Rightarrow>
          if q \<noteq> DQUOTE then None
          else
            (case json_string [] cs of
               None \<Rightarrow> None
             | Some (k, rest) \<Rightarrow>
                 (case skip_ws rest of
                    [] \<Rightarrow> None
                  | c # rest1 \<Rightarrow>
                      if c \<noteq> 58 then None
                      else
                        (case json_value n rest1 of
                           None \<Rightarrow> None
                         | Some (v, rest2) \<Rightarrow>
                             (case skip_ws rest2 of
                                [] \<Rightarrow> None
                              | d # rest3 \<Rightarrow>
                                  if d = 44 then json_members n (acc @ [(k, v)]) rest3
                                  else if d = 125 then Some (JObj (acc @ [(k, v)]), rest3)
                                  else None)))))"

definition JSON_parse :: "jsstring \<Rightarrow> jsval option" where
  "JSON_parse s =
     (case json_value (2 * length s + 2) s of
        None \<Rightarrow> None
      | Some (v, rest) \<Rightarrow> if skip_ws rest = [] then Some v else None)"

section \<open>The response normalizer\<close>

definition chain :: "('a \<Rightarrow> 'a) list \<Rightarrow> 'a \<Rightarrow> 'a" where
  \<comment> \<open>a chain of method calls \<open>x.f1().f2()...\<close>, applied left to right\<close>
  "chain fs x = fold (\<lambda>f. f) fs x"

definition quote_or_space :: "int \<Rightarrow> bool" where \<comment> \<open>\<open>["\s]\<close>\<close>
  "quote_or_space c \<longleftrightarrow> c = DQUOTE \<or> is_space c"

subsection \<open>\<open>cleanFeedback\<close>\<close>

definition leading_bracket_re :: regex where \<comment> \<open>\<open>/^[{\[]/\<close>\<close>
  "leading_bracket_re = Seq Bol (Cls (one_of (ustr ''{['')))"

definition trailing_bracket_re :: regex where \<comment> \<open>\<open>/[}\]]$/\<close>\<close>
  "trailing_bracket_re = Seq (Cls (one_of (ustr ''}]''))) Eol"

definition outer_quote_re :: regex where \<comment> \<open>\<open>/^"|"$/g\<close>\<close>
  "outer_quote_re = Alt (Seq Bol (Cls (chr DQUOTE))) (Seq (Cls (chr DQUOTE)) Eol)"

definition escaped_re :: "int \<Rightarrow> regex" where
  \<comment> \<open>\<open>/\\"/g\<close>, \<open>/\\n/g\<close>, \<open>/\\t/g\<close>, \<open>/\\r/g\<close>: a backslash and the given code unit\<close>
  "escaped_re c = Seq (Cls (chr BACKSLASH)) (Cls (chr c))"

definition quoted_field_re :: "string \<Rightarrow> regex" where \<comment> \<open>\<open>/^"name":\s*"?/i\<close>\<close>
  "quoted_field_re name =
     seqs [Bol, Cls (chr DQUOTE), ilits name, Cls (chr DQUOTE), Cls (lit CHR '':''),
           Star is_space, Opt (chr DQUOTE)]"

definition spaced_field_re :: "string \<Rightarrow> regex" where \<comment> \<open>\<open>/^"name"\s*:\s*"?/i\<close>\<close>
  "spaced_field_re name =
     seqs [Bol, Cls (chr DQUOTE), ilits name, Cls (chr DQUOTE), Star is_space,
           Cls (lit CHR '':''), Star is_space, Opt (chr DQUOTE)]"

definition bare_field_re :: "string \<Rightarrow> regex" where \<comment> \<open>\<open>/^name":\s*"?/i\<close>\<close>
  "bare_field_re name =
     seqs [Bol, ilits name, Cls (chr DQUOTE), Cls (lit CHR '':''), Star is_space,
           Opt (chr DQUOTE)]"

definition trailing_quote_re :: regex where \<comment> \<open>\<open>/",?\s*$/\<close>\<close>
  "trailing_quote_re = seqs [Cls (chr DQUOTE), Opt (lit CHR '',''), Star is_space, Eol]"

definition leading_comma_re :: regex where \<comment> \<open>\<open>/^,/\<close>\<close>
  "leading_comma_re = Seq Bol (Cls (lit CHR '',''))"

definition trailing_comma_re :: regex where \<comment> \<open>\<open>/,$/\<close>\<close>
  "trailing_comma_re = Seq (Cls (lit CHR '','')) Eol"

definition field_separator_re :: regex where \<comment> \<open>\<open>/["\s]*[a-zA-Z]+["\s]*:\s*/\<close>\<close>
  "field_separator_re =
     seqs [Star quote_or_space, Plus is_alpha, Star quote_or_space, Cls (lit CHR '':''),
           Star is_space]"

definition marker_re :: regex where
  \<comment> \<open>\<open>/^[...]/\<close> with the thirteen marker glyphs; without the \<open>u\<close> flag the class
      holds the code units of the glyphs, both halves of each surrogate pair\<close>
  "marker_re =
     Seq Bol (Cls (one_of (concat (map code_point
       [0x1F3AF, 0x2705, 0x274C, 0x1F44D, 0x1F914, 0x1F4A1, 0x1F389, 0x1F31F, 0x1F4AA,
        0x2728, 0x1F525, 0x1F4DA, 0x1F4AF]))))"

definition quoted_key :: "string \<Rightarrow> jsstring" where \<comment> \<open>the text \<open>"name":\<close>\<close>
  "quoted_key name = [DQUOTE] @ ustr name @ [DQUOTE] @ ustr '':''"

definition has_word :: "jsstring \<Rightarrow> string \<Rightarrow> bool" where
  \<comment> \<open>\<open>s.toLowerCase().includes(word)\<close>\<close>
  "has_word s word = str_includes (toLowerCase s) (ustr word)"

definition cleanFeedback :: "jsstring \<Rightarrow> jsstring" where
  "cleanFeedback text =
     (if text = [] then []
      else
        let cleaned = chain
              [regex_replace leading_bracket_re [],
               regex_replace trailing_bracket_re [],
               regex_replace_all outer_quote_re [],
               regex_replace_all (escaped_re DQUOTE) [DQUOTE],
               regex_replace_all (escaped_re 110) [10],
               regex_replace_all (escaped_re 116) [9],
               regex_replace_all (escaped_re 114) [13],
               trim] text;
            cleaned = chain
              [regex_replace (quoted_field_re ''feedback'') [],
               regex_replace (quoted_field_re ''explanation'') [],
               regex_replace (quoted_field_re ''isCorrect'') [],
               regex_replace (quoted_field_re ''confidence'') [],
               regex_replace (quoted_field_re ''score'') [],
               regex_replace (quoted_field_re ''suggestions'') [],
               regex_replace (spaced_field_re ''feedback'') [],
               regex_replace (spaced_field_re ''explanation'') [],
               regex_replace (spaced_field_re ''isCorrect'') [],
               regex_replace (spaced_field_re ''confidence'') [],
               regex_replace (spaced_field_re ''score'') [],
               regex_replace (spaced_field_re ''suggestions'') [],
               regex_replace (bare_field_re ''score'') [],
               regex_replace (bare_field_re ''feedback'') [],
               regex_replace (bare_field_re ''suggestions'') [],
               regex_replace (bare_field_re ''isCorrect'') [],
               regex_replace (bare_field_re ''confidence'') [],
               regex_replace (bare_field_re ''explanation'') []] cleaned;
            cleaned = chain
              [regex_replace trailing_quote_re [],
               regex_replace trailing_quote_re [],
               regex_replace leading_comma_re [],
               regex_replace trailing_comma_re [],
               regex_replace_all outer_quote_re []] cleaned;
            parts = regex_split field_separator_re cleaned;
            cleaned =
              (if (str_includes cleaned (quoted_key ''score'') \<or>
                   str_includes cleaned (quoted_key ''feedback'') \<or>
                   str_includes cleaned (quoted_key ''suggestions'')) \<and> length parts > 1
               then last parts else cleaned);
            cleaned = chain
              [regex_replace leading_bracket_re [],
               regex_replace trailing_bracket_re [],
               regex_replace_all outer_quote_re [],
               trim] cleaned;
            cleaned =
              (if cleaned \<noteq> [] \<and> \<not> regex_test marker_re cleaned then
                 if has_word cleaned ''correct'' \<or> has_word cleaned ''good'' \<or>
                    has_word cleaned ''excellent'' \<or> has_word cleaned ''great'' then
                   (code_point 0x2705 @ ustr '' '') @ cleaned
                 else if has_word cleaned ''wrong'' \<or> has_word cleaned ''incorrect'' \<or>
                         has_word cleaned ''error'' then
                   (code_point 0x274C @ ustr '' '') @ cleaned
                 else if has_word cleaned ''hint'' \<or> has_word cleaned ''try'' \<or>
                         has_word cleaned ''remember'' then
                   (code_point 0x1F4A1 @ ustr '' '') @ cleaned
                 else (code_point 0x1F4DD @ ustr '' '') @ cleaned
               else cleaned)
        in trim cleaned)"

text \<open>
  \<open>cleanFeedback\<close> on a value that is not known to be a string: a falsy value gives
  the empty string, and a truthy value that is no string has no \<open>replace\<close> method, so
  the call throws a \<open>TypeError\<close> (\<open>None\<close>).
\<close>

definition cleanFeedback_val :: "jsval \<Rightarrow> jsstring option" where
  "cleanFeedback_val v =
     (if \<not> truthy v then Some []
      else case v of JStr text \<Rightarrow> Some (cleanFeedback text) | _ \<Rightarrow> None)"

subsection \<open>\<open>cleanSuggestion\<close>\<close>

definition bullet_re :: regex where \<comment> \<open>\<open>/^[\<close>U+2022\<open>\-\*]\s*/\<close>\<close>
  "bullet_re = seqs [Bol, Cls (one_of (code_point 0x2022 @ ustr ''-*'')), Star is_space]"

definition memo_prefix_re :: regex where \<comment> \<open>\<open>/^\<close>U+1F4DD\<open>\s*/\<close>\<close>
  "memo_prefix_re = seqs [Bol, Cls (chr 0xD83D), Cls (chr 0xDCDD), Star is_space]"

definition word_prefix_re :: "string \<Rightarrow> regex" where
  \<comment> \<open>\<open>/^e\.g\.\s*/\<close>, \<open>/^Thus\s*/\<close>, \<open>/^Verify\s*/\<close>, \<open>/^Include\s*/\<close>, \<open>/^Add\s*/\<close>\<close>
  "word_prefix_re w = seqs [Bol, lits w, Star is_space]"

definition solution_example_re :: regex where \<comment> \<open>\<open>/^\(x = \d+\)\.?\s*/\<close>\<close>
  "solution_example_re =
     seqs [Bol, lits ''(x = '', Plus is_digit, Cls (lit CHR '')''), Opt (lit CHR ''.''),
           Star is_space]"

definition latex_command_re :: regex where \<comment> \<open>\<open>/\\[a-zA-Z]+\{[^}]*\}/g\<close>\<close>
  "latex_command_re =
     seqs [Cls (chr BACKSLASH), Plus is_alpha, Cls (lit CHR ''{''), Star (none_of (ustr ''}'')),
           Cls (lit CHR ''}'')]"

definition braces_re :: regex where \<comment> \<open>\<open>/\{[^}]*\}/g\<close>\<close>
  "braces_re = seqs [Cls (lit CHR ''{''), Star (none_of (ustr ''}'')), Cls (lit CHR ''}'')]"

definition cleanSuggestion :: "jsstring \<Rightarrow> jsstring" where
  "cleanSuggestion text =
     (if text = [] then []
      else
        let cleaned = chain
              [regex_replace bullet_re [],
               regex_replace memo_prefix_re [],
               regex_replace (word_prefix_re ''e.g.'') [],
               regex_replace (word_prefix_re ''Thus'') [],
               regex_replace solution_example_re [],
               regex_replace (word_prefix_re ''Verify'') [],
               regex_replace (word_prefix_re ''Include'') [],
               regex_replace (word_prefix_re ''Add'') [],
               trim] text;
            cleaned = chain
              [regex_replace_all (escaped_re 40) [],
               regex_replace_all (escaped_re 41) [],
               regex_replace_all latex_command_re [],
               regex_replace_all braces_re [],
               regex_replace_all (Cls (chr BACKSLASH)) [],
               trim] cleaned;
            cleaned =
              (if has_word cleaned ''verify'' \<or> has_word cleaned ''check'' \<or>
                  has_word cleaned ''substitute'' then
                 (code_point 0x1F50D @ ustr '' '') @ cleaned
               else if has_word cleaned ''add'' \<or> has_word cleaned ''include'' \<or>
                       has_word cleaned ''step'' then
                 (code_point 0x1F4DD @ ustr '' '') @ cleaned
               else if has_word cleaned ''explain'' \<or> has_word cleaned ''understanding'' \<or>
                       has_word cleaned ''reinforce'' then
                 (code_point 0x1F4DA @ ustr '' '') @ cleaned
               else if has_word cleaned ''practice'' \<or> has_word cleaned ''review'' \<or>
                       has_word cleaned ''focus'' then
                 (code_point 0x1F3AF @ ustr '' '') @ cleaned
               else (code_point 0x1F4A1 @ ustr '' '') @ cleaned)
        in trim cleaned)"

section \<open>The step validation orchestrator\<close>

text \<open>
  The Completion capability is opaque: whatever the prompt, the call either fails
  (rejects or throws) or yields the text of the first choice, the empty string
  when there is none. The prompt is built from strings only and cannot throw, so
  it is left out of the model.
\<close>

datatype completion = Failed | Responded jsstring

subsection \<open>\<open>validateMathStep\<close>\<close>

definition fence_re :: regex where \<comment> \<open>\<open>/```json\s*|\s*```/g\<close>\<close>
  "fence_re = Alt (Seq (lits ''```json'') (Star is_space)) (Seq (Star is_space) (lits ''```''))"

definition json_object_re :: regex where \<comment> \<open>\<open>/\{[\s\S]*\}/\<close>\<close>
  "json_object_re = seqs [Cls (lit CHR ''{''), Star any_char, Cls (lit CHR ''}'')]"

definition strip_fences :: "jsstring \<Rightarrow> jsstring" where
  \<comment> \<open>\<open>response.trim()\<close>, then \<open>.replace(/```json\s*|\s*```/g, '')\<close>\<close>
  "strip_fences response = regex_replace_all fence_re [] (trim response)"

definition repair_json :: "jsstring \<Rightarrow> jsstring" where
  \<comment> \<open>the four repairs of \<open>jsonString\<close>; the last three put back what they matched\<close>
  "repair_json jsonString = chain
     [regex_replace_all (escaped_re DQUOTE) [DQUOTE],
      regex_replace_all (escaped_re 110) [BACKSLASH, 110],
      regex_replace_all (escaped_re 116) [BACKSLASH, 116],
      regex_replace_all (escaped_re 114) [BACKSLASH, 114]] jsonString"

definition json_candidate :: "jsstring \<Rightarrow> jsstring option" where
  \<comment> \<open>the text handed to \<open>JSON.parse\<close>, if the response holds a brace pair\<close>
  "json_candidate response =
     (case regex_exec json_object_re (strip_fences response) of
        None \<Rightarrow> None
      | Some jsonMatch \<Rightarrow> Some (repair_json (m_text jsonMatch)))"

definition clamp_confidence :: "jsnum \<Rightarrow> jsnum" where \<comment> \<open>\<open>Math.max(0, Math.min(1, n || 0.5))\<close>\<close>
  "clamp_confidence n = Math_max (Num 0) (Math_min (Num 1) (num_or n (Num 0.5)))"

definition extract_object :: "jsstring \<Rightarrow> jsval option" where
  \<comment> \<open>strip the fences, take the first \<open>{\<close> through the last \<open>}\<close>, repair, strict-parse;
      \<open>None\<close> when there is no brace pair or \<open>JSON.parse\<close> throws\<close>
  "extract_object response =
     (case json_candidate response of
        None \<Rightarrow> None
      | Some jsonString \<Rightarrow> JSON_parse jsonString)"

text \<open>
  The \<open>try\<close> block of \<open>parseValidationResponse\<close>: \<open>None\<close> when it ends without a
  \<open>return\<close>, because no brace pair was found or because \<open>JSON.parse\<close>,
  \<open>cleanFeedback\<close> or \<open>Number\<close> threw.
\<close>

definition parse_validation_json :: "jsstring \<Rightarrow> StepValidationResult option" where
  "parse_validation_json response =
     (case extract_object response of
        None \<Rightarrow> None
      | Some parsed \<Rightarrow>
             (let fb = (if truthy (get_prop parsed (ustr ''feedback''))
                        then get_prop parsed (ustr ''feedback'')
                        else JStr (ustr ''No feedback provided''))
              in case cleanFeedback_val fb of
                   None \<Rightarrow> None
                 | Some fb' \<Rightarrow>
                    (let expl = get_prop parsed (ustr ''explanation'')
                     in case (if truthy expl then map_option JStr (cleanFeedback_val expl)
                              else Some expl) of
                          None \<Rightarrow> None
                        | Some expl' \<Rightarrow>
                           (case to_number (get_prop parsed (ustr ''confidence'')) of
                              None \<Rightarrow> None
                            | Some n \<Rightarrow>
                                Some \<lparr>isCorrect = truthy (get_prop parsed (ustr ''isCorrect'')),
                                      feedback = fb',
                                      explanation = expl',
                                      confidence = clamp_confidence n\<rparr>))))"

definition keyword_scan :: "jsstring \<Rightarrow> StepValidationResult" where
  \<comment> \<open>the fallback parsing after the \<open>try\<close> block\<close>
  "keyword_scan response =
     (let cleanedResponse = cleanFeedback response;
          correct = has_word cleanedResponse ''correct'' \<or> has_word cleanedResponse ''valid'' \<or>
                    has_word cleanedResponse ''true''
      in \<lparr>isCorrect = correct,
          feedback = substring0 cleanedResponse 200 @
                     (if length cleanedResponse > 200 then ustr ''...'' else []),
          explanation = JUndefined,
          confidence = (if correct then Num 0.8 else Num 0.3)\<rparr>)"

definition parseValidationResponse :: "jsstring \<Rightarrow> StepValidationResult" where
  "parseValidationResponse response =
     (case parse_validation_json response of
        Some res \<Rightarrow> res
      | None \<Rightarrow> keyword_scan response)"

text \<open>
  \<open>validateMathStep\<close> with the outcome of the Completion call and the random draw as
  arguments; the optional \<open>context\<close> only enters the prompt. A rejected call is caught;
  nothing after the \<open>catch\<close> can throw, so the result is always a value.
\<close>

definition validateMathStep :: "completion \<Rightarrow> real \<Rightarrow> jsstring \<Rightarrow> StepValidationResult" where
  "validateMathStep outcome rnd latex =
     (case outcome of
        Responded response \<Rightarrow> parseValidationResponse response
      | Failed \<Rightarrow>
          if trim latex \<noteq> [] then fallbackValidation rnd latex
          else \<lparr>isCorrect = False,
                feedback = ustr ''Unable to validate step. Please check your internet '' @
                           ustr ''connection and try again.'',
                explanation = JUndefined,
                confidence = Num 0\<rparr>)"

subsection \<open>\<open>evaluateCompleteSolution\<close>\<close>

record SolutionStep =
  stepNumber :: int
  step_latex :: jsstring
  step_isCorrect :: bool
  step_feedback :: jsstring

record SolutionData =
  originalQuestion :: jsstring
  steps :: "SolutionStep list"

record SolutionEvaluation =
  score :: jsnum
  eval_feedback :: jsstring
  suggestions :: "jsstring list"

definition clamp_score :: "jsnum \<Rightarrow> jsnum" where \<comment> \<open>\<open>Math.max(0, Math.min(100, n))\<close>\<close>
  "clamp_score n = Math_max (Num 0) (Math_min (Num 100) n)"

definition generateDefaultSuggestions :: "jsnum \<Rightarrow> jsstring list" where
  "generateDefaultSuggestions n =
     (if js_ge n (Num 90) then
        [code_point 0x1F3AF @ ustr '' Try more complex problems to challenge yourself'',
         code_point 0x1F31F @ ustr '' Consider exploring advanced topics like quadratic equations'',
         code_point 0x1F4AA @ ustr '' Keep up the excellent work!'']
      else if js_ge n (Num 70) then
        [code_point 0x1F4DA @ ustr '' Review the steps you missed and understand the correct approach'',
         code_point 0x1F3AF @ ustr '' Practice similar problems to strengthen your skills'',
         code_point 0x1F4A1 @ ustr '' Focus on the areas that need improvement'']
      else if js_ge n (Num 50) then
        [code_point 0x1F4D6 @ ustr '' Focus on understanding the fundamental algebraic rules'',
         code_point 0x1F50D @ ustr '' Break down complex problems into smaller, manageable steps'',
         code_point 0x1F9EE @ ustr '' Double-check your arithmetic calculations'']
      else
        [code_point 0x1F4DA @ ustr '' Review basic algebraic operations and rules'',
         code_point 0x1F3AF @ ustr '' Start with simpler problems and gradually increase difficulty'',
         code_point 0x1F4AA @ ustr '' Don't hesitate to ask for help when you need it''])"

definition percentage :: "nat \<Rightarrow> nat \<Rightarrow> jsnum" where
  \<comment> \<open>\<open>(correctSteps / totalSteps) * 100\<close> for two array lengths, the second one positive\<close>
  "percentage correctSteps totalSteps =
     (case fl (real correctSteps / real totalSteps) of
        Num ratio \<Rightarrow> fl (ratio * 100)
      | n \<Rightarrow> n)"

definition fallbackSolutionEvaluation :: "SolutionData \<Rightarrow> SolutionEvaluation" where
  "fallbackSolutionEvaluation solutionData =
     (let totalSteps = length (steps solutionData);
          correctSteps = length (filter step_isCorrect (steps solutionData));
          accuracy = (if totalSteps > 0 then percentage correctSteps totalSteps else Num 0);
          score0 = Math_round accuracy;
          score1 = (if js_eq accuracy (Num 100) then Math_min (Num 100) (js_add score0 (Num 10))
                    else score0);
          tally = number_to_string (Num (real correctSteps)) @ ustr ''/'' @
                  number_to_string (Num (real totalSteps)) @ ustr '' steps correct.'';
          (fb, suggs) =
            (if js_ge accuracy (Num 90) then
               (code_point 0x1F389 @ ustr '' Excellent! '' @ tally,
                [ustr ''Try more complex problems to further challenge yourself'',
                 ustr ''Consider exploring advanced topics like quadratic equations''])
             else if js_ge accuracy (Num 70) then
               (code_point 0x1F44D @ ustr '' Good! '' @ tally,
                [ustr ''Review the steps you missed and understand the correct approach'',
                 ustr ''Practice similar problems to strengthen your skills''])
             else if js_ge accuracy (Num 50) then
               (code_point 0x1F4DA @ ustr '' Progress! '' @ tally,
                [ustr ''Focus on understanding the fundamental algebraic rules'',
                 ustr ''Break down complex problems into smaller, manageable steps'',
                 ustr ''Double-check your arithmetic calculations''])
             else
               (code_point 0x1F4AA @ ustr '' Keep going! '' @ tally,
                [ustr ''Review basic algebraic operations and rules'',
                 ustr ''Start with simpler problems and gradually increase difficulty'',
                 ustr ''Don't hesitate to ask for help when you need it'']));
          suggs' =
            (if list_ex (\<lambda>step. str_includes (step_latex step) (ustr ''='')) (steps solutionData)
                \<and> correctSteps < totalSteps
             then suggs @ [ustr ''Remember: when moving terms across an equals sign, change their signs'']
             else suggs)
      in \<lparr>score = score1, eval_feedback = fb, suggestions = suggs'\<rparr>)"

definition malformed_re :: regex where
  \<comment> \<open>\<open>/["\s]*score["\s]*:\s*(\d+),["\s]*feedback["\s]*:\s*"([^"]+)",["\s]*suggestions["\s]*:\s*\[([^\]]*)\]/\<close>\<close>
  "malformed_re =
     seqs [Star quote_or_space, lits ''score'', Star quote_or_space, Cls (lit CHR '':''),
           Star is_space, Grp 1 (Plus is_digit), Cls (lit CHR '',''),
           Star quote_or_space, lits ''feedback'', Star quote_or_space, Cls (lit CHR '':''),
           Star is_space, Cls (chr DQUOTE), Grp 2 (Plus (none_of [DQUOTE])), Cls (chr DQUOTE),
           Cls (lit CHR '',''),
           Star quote_or_space, lits ''suggestions'', Star quote_or_space, Cls (lit CHR '':''),
           Star is_space, Cls (lit CHR ''[''), Grp 3 (Star (none_of (ustr '']''))),
           Cls (lit CHR '']'')]"

definition score_text_re :: regex where \<comment> \<open>\<open>/(\d+)\/100|score[:\s]*(\d+)/i\<close>\<close>
  "score_text_re =
     Alt (seqs [Grp 1 (Plus is_digit), lits ''/100''])
         (seqs [ilits ''score'', Star (\<lambda>c. c = 58 \<or> is_space c), Grp 2 (Plus is_digit)])"

fun split_on :: "int \<Rightarrow> jsstring \<Rightarrow> jsstring list" where \<comment> \<open>\<open>s.split(',')\<close>\<close>
  "split_on sep [] = [[]]"
| "split_on sep (c # cs) =
     (if c = sep then [] # split_on sep cs
      else case split_on sep cs of [] \<Rightarrow> [[c]] | p # ps \<Rightarrow> (c # p) # ps)"

definition keep_nonblank :: "jsstring list \<Rightarrow> jsstring list" where
  \<comment> \<open>\<open>.filter(s => s.trim().length > 0)\<close>\<close>
  "keep_nonblank xs = filter (\<lambda>s. length (trim s) > 0) xs"

text \<open>The branch for the flat text \<open>"score":90,"feedback":"...","suggestions":[...]\<close>.\<close>

definition parse_malformed :: "rmatch_result \<Rightarrow> SolutionEvaluation" where
  "parse_malformed malformedMatch =
     (let scoreStr = capture malformedMatch 1;
          feedbackStr = capture malformedMatch 2;
          suggestionsStr = capture malformedMatch 3;
          score' = clamp_score (num_or (string_to_number scoreStr) (Num 0));
          feedback' = cleanFeedback feedbackStr;
          suggs =
            (if trim suggestionsStr \<noteq> [] then
               keep_nonblank
                 (map (\<lambda>s. cleanSuggestion (regex_replace_all outer_quote_re [] (trim s)))
                      (split_on 44 suggestionsStr))
             else []);
          suggs' = (if suggs = [] then generateDefaultSuggestions score' else suggs)
      in \<lparr>score = score', eval_feedback = feedback', suggestions = suggs'\<rparr>)"

text \<open>
  The branch that parses a brace pair; \<open>None\<close> when \<open>JSON.parse\<close>, \<open>cleanFeedback\<close>,
  \<open>String\<close> or the conversion of the score to a number throws.
\<close>

definition parse_evaluation_json :: "jsstring \<Rightarrow> SolutionEvaluation option" where
  "parse_evaluation_json jsonText =
     (case JSON_parse (repair_json jsonText) of
        None \<Rightarrow> None
      | Some parsed \<Rightarrow>
         (let fb = (if truthy (get_prop parsed (ustr ''feedback''))
                    then get_prop parsed (ustr ''feedback'')
                    else JStr (ustr ''No feedback provided.''))
          in case cleanFeedback_val fb of
               None \<Rightarrow> None
             | Some fb' \<Rightarrow>
                (let cleaned =
                       (case get_prop parsed (ustr ''suggestions'') of
                          JArr xs \<Rightarrow>
                            map_option keep_nonblank
                              (those
                                 (map (\<lambda>suggestion.
                                         case suggestion of
                                           JStr s \<Rightarrow> Some (cleanSuggestion s)
                                         | _ \<Rightarrow> map_option cleanSuggestion (js_String suggestion))
                                    xs))
                        | _ \<Rightarrow> Some []);
                     sc = get_prop parsed (ustr ''score'')
                 in case (cleaned, to_number sc) of
                      (Some suggs, Some n) \<Rightarrow>
                        Some \<lparr>score = clamp_score (num_or n (Num 0)),
                              eval_feedback = fb',
                              suggestions =
                                (if suggs = [] then
                                   generateDefaultSuggestions (if truthy sc then n else Num 0)
                                 else suggs)\<rparr>
                    | _ \<Rightarrow> None)))"

text \<open>The fallback parsing after the \<open>try\<close> block, on the response as it came.\<close>

definition parse_evaluation_text :: "jsstring \<Rightarrow> SolutionEvaluation" where
  "parse_evaluation_text response =
     (let score' =
            (case regex_exec score_text_re response of
               None \<Rightarrow> Num 50
             | Some scoreMatch \<Rightarrow>
                 string_to_number
                   (if capture scoreMatch 1 \<noteq> [] then capture scoreMatch 1
                    else capture scoreMatch 2))
      in \<lparr>score = clamp_score score',
          eval_feedback = cleanFeedback (substring0 response 500) @
                          (if length response > 500 then ustr ''...'' else []),
          suggestions = generateDefaultSuggestions score'\<rparr>)"

definition parseSolutionEvaluation :: "jsstring \<Rightarrow> SolutionEvaluation" where
  "parseSolutionEvaluation response =
     (let cleanedResponse = strip_fences response;
          tried =
            (case regex_exec malformed_re cleanedResponse of
               Some malformedMatch \<Rightarrow> Some (parse_malformed malformedMatch)
             | None \<Rightarrow>
                (case regex_exec json_object_re cleanedResponse of
                   Some jsonMatch \<Rightarrow> parse_evaluation_json (m_text jsonMatch)
                 | None \<Rightarrow> None))
      in case tried of
           Some res \<Rightarrow> res
         | None \<Rightarrow> parse_evaluation_text response)"

definition evaluateCompleteSolution :: "completion \<Rightarrow> SolutionData \<Rightarrow> SolutionEvaluation" where
  "evaluateCompleteSolution outcome solutionData =
     (case outcome of
        Responded response \<Rightarrow> parseSolutionEvaluation response
      | Failed \<Rightarrow> fallbackSolutionEvaluation solutionData)"

section \<open>Auxiliary notions for the properties\<close>

definition encouragement_pools :: "jsstring list list" where
  \<comment> \<open>every \<open>encouragements\<close> array of \<open>getStepSpecificFeedback\<close>\<close>
  "encouragement_pools =
     [found_x_pool, coefficient_pool, move_term_pool, arithmetic_pool, division_pool,
      verification_pool, substitution_pool, generic_pool]"

text \<open>A pattern with its capture groups removed, and the patterns without back-references.\<close>

fun erase_groups :: "regex \<Rightarrow> regex" where
  "erase_groups (Seq a b) = Seq (erase_groups a) (erase_groups b)"
| "erase_groups (Alt a b) = Alt (erase_groups a) (erase_groups b)"
| "erase_groups (Grp n r) = erase_groups r"
| "erase_groups r = r"

fun backref_free :: "regex \<Rightarrow> bool" where
  "backref_free (Seq a b) = (backref_free a \<and> backref_free b)"
| "backref_free (Alt a b) = (backref_free a \<and> backref_free b)"
| "backref_free (Grp n r) = backref_free r"
| "backref_free (Backref n) = False"
| "backref_free r = True"

definition reached :: "mstate \<Rightarrow> nat \<times> jsstring" where
  \<comment> \<open>a matcher state without its captures\<close>
  "reached st = (fst st, fst (snd st))"

text \<open>
  What a pattern can consume, read off its syntax: \<open>accepts r i w t\<close> says that \<open>r\<close>,
  started at index \<open>i\<close>, can match the text \<open>w\<close> when \<open>t\<close> is what follows. It is an
  upper bound for the matcher (a back-reference is taken to match anything) and is
  used to show that two patterns never match the same text.
\<close>

fun accepts :: "regex \<Rightarrow> nat \<Rightarrow> jsstring \<Rightarrow> jsstring \<Rightarrow> bool" where
  "accepts (Cls p) i w t = (\<exists>c. w = [c] \<and> p c)"
| "accepts (Star p) i w t = list_all p w"
| "accepts (Plus p) i w t = (w \<noteq> [] \<and> list_all p w)"
| "accepts (Opt p) i w t = (w = [] \<or> (\<exists>c. w = [c] \<and> p c))"
| "accepts (Seq a b) i w t =
     (\<exists>u v. w = u @ v \<and> accepts a i u (v @ t) \<and> accepts b (i + length u) v t)"
| "accepts (Alt a b) i w t = (accepts a i w t \<or> accepts b i w t)"
| "accepts (Grp n r) i w t = accepts r i w t"
| "accepts (Backref n) i w t = True"
| "accepts Bol i w t = (i = 0 \<and> w = [])"
| "accepts Eol i w t = (w = [] \<and> t = [])"
| "accepts Eps i w t = (w = [])"

definition op_signs :: "jsstring \<Rightarrow> jsstring" where
  \<comment> \<open>the equals, plus and minus signs of a text, in order\<close>
  "op_signs s = filter (\<lambda>c. c = 61 \<or> c = 43 \<or> c = 45) s"

definition in_range :: "real \<Rightarrow> real \<Rightarrow> jsnum \<Rightarrow> bool" where
  \<comment> \<open>a number, not NaN and not infinite, within the closed interval\<close>
  "in_range lo hi n = (case n of Num x \<Rightarrow> lo \<le> x \<and> x \<le> hi | _ \<Rightarrow> False)"

fun group_bodies :: "regex \<Rightarrow> (nat \<times> regex) list" where
  \<comment> \<open>the capture groups with the patterns inside them\<close>
  "group_bodies (Seq a b) = group_bodies a @ group_bodies b"
| "group_bodies (Alt a b) = group_bodies a @ group_bodies b"
| "group_bodies (Grp n r) = (n, r) # group_bodies r"
| "group_bodies r = []"

definition digit_text :: "jsstring \<Rightarrow> bool" where \<comment> \<open>what \<open>\d+\<close> matches\<close>
  "digit_text w \<longleftrightarrow> w \<noteq> [] \<and> list_all is_digit w"

definition close_brace :: regex where \<comment> \<open>the end of \<open>/\{[\s\S]*\}/\<close>\<close>
  "close_brace = Seq (Cls (lit CHR ''}'')) Eps"

definition random_draw :: "real \<Rightarrow> bool" where
  \<comment> \<open>a value that \<open>Math.random()\<close> can return: a double, at least 0 and below 1\<close>
  "random_draw r \<longleftrightarrow> 0 \<le> r \<and> r < 1 \<and> fl r = Num r"

fun must_groups :: "regex \<Rightarrow> nat list" where
  \<comment> \<open>the capture groups that take part in every match\<close>
  "must_groups (Seq a b) = must_groups a @ must_groups b"
| "must_groups (Grp n r) = n # must_groups r"
| "must_groups r = []"

text \<open>
  The rule table of the heuristic validator, as the specification describes it: an
  ordered decision procedure in which the first matching rule wins, with a fixed
  verdict and a fixed confidence for each rule and, for a known-good shape, a fixed
  pool of encouragements for its category. \<open>matched_rule\<close> names the rule that wins
  for a text, \<open>rule_feedback\<close> gives the texts the rule can answer with: the pool of
  the category, or the one message of a rule without a pool. The table is compared
  with \<open>fallbackValidation\<close> below.
\<close>

datatype rule =
    SignError | ArithmeticError
  | FoundX | Coefficient | MoveTerm | CorrectArithmetic | Division | Verification
  | SubstitutionCheck | OtherShape
  | ValidEquation | ValidExpression | GoodStep | Incomplete

definition arithmetic_mismatch :: "jsstring \<Rightarrow> bool" where
  \<comment> \<open>the text has the shape \<open>N + N = N\<close> or \<open>N - N = N\<close> and the stated result is not
      the recomputed one\<close>
  "arithmetic_mismatch t =
     (case regex_exec arithmetic_match t of
        Some m \<Rightarrow> \<not> js_eq (expected_value m) (parseInt (capture m 4))
      | None \<Rightarrow> False)"

definition shape_rule :: "jsstring \<Rightarrow> rule" where \<comment> \<open>the category of a known-good shape\<close>
  "shape_rule t =
     (if regex_test found_x_re t then FoundX
      else if regex_test coefficient_re t then Coefficient
      else if regex_test move_term_re t then MoveTerm
      else if regex_test arithmetic_test t then CorrectArithmetic
      else if regex_test division_re t \<or> regex_test frac_re t then Division
      else if regex_test verification_re t then Verification
      else if regex_test substitution_pattern t then SubstitutionCheck
      else OtherShape)"

definition matched_rule :: "jsstring \<Rightarrow> rule" where
  "matched_rule latex =
     (let t = trim latex;
          digit = regex_test has_numbers_re t;
          letter = regex_test has_variables_re t
      in if regex_test sign_error_test t then SignError
         else if arithmetic_mismatch t then ArithmeticError
         else if isValidAlgebraStep t then shape_rule t
         else if str_includes t (ustr ''='') \<and> (digit \<or> letter) then ValidEquation
         else if (digit \<or> letter \<or> regex_test has_fractions_re t \<or> regex_test has_sqrt_re t)
                 \<and> t \<noteq> [] then ValidExpression
         else if regex_test has_operations_re t \<or> digit \<or> letter then GoodStep
         else Incomplete)"

definition rule_verdict :: "rule \<Rightarrow> bool" where
  "rule_verdict r \<longleftrightarrow> r \<noteq> SignError \<and> r \<noteq> ArithmeticError \<and> r \<noteq> Incomplete"

definition rule_confidence :: "rule \<Rightarrow> jsnum" where
  "rule_confidence r =
     (case r of
        SignError \<Rightarrow> Num 0.85
      | ArithmeticError \<Rightarrow> Num 0.95
      | FoundX \<Rightarrow> Num 0.95
      | Coefficient \<Rightarrow> Num 0.9
      | MoveTerm \<Rightarrow> Num 0.9
      | CorrectArithmetic \<Rightarrow> Num 0.95
      | Division \<Rightarrow> Num 0.85
      | Verification \<Rightarrow> Num 0.95
      | SubstitutionCheck \<Rightarrow> Num 0.9
      | OtherShape \<Rightarrow> Num 0.8
      | ValidEquation \<Rightarrow> Num 0.9
      | ValidExpression \<Rightarrow> Num 0.85
      | GoodStep \<Rightarrow> Num 0.75
      | Incomplete \<Rightarrow> Num 0.3)"

definition rule_feedback :: "rule \<Rightarrow> jsstring \<Rightarrow> jsstring list" where
  "rule_feedback r latex =
     (case r of
        SignError \<Rightarrow>
          (case regex_exec sign_error_match (trim latex) of
             Some m \<Rightarrow> [code_point 0x1F914 @ ustr '' Check signs: when moving '' @ capture m 3 @
                        ustr '', it should become -'' @ capture m 3]
           | None \<Rightarrow> [])
      | ArithmeticError \<Rightarrow>
          (case regex_exec arithmetic_match (trim latex) of
             Some m \<Rightarrow> [code_point 0x274C @ ustr '' Arithmetic error: '' @ capture m 1 @
                        ustr '' '' @ capture m 2 @ ustr '' '' @ capture m 3 @ ustr '' = '' @
                        number_to_string (expected_value m) @ ustr '', not '' @ capture m 4]
           | None \<Rightarrow> [])
      | FoundX \<Rightarrow> found_x_pool
      | Coefficient \<Rightarrow> coefficient_pool
      | MoveTerm \<Rightarrow> move_term_pool
      | CorrectArithmetic \<Rightarrow> arithmetic_pool
      | Division \<Rightarrow> division_pool
      | Verification \<Rightarrow> verification_pool
      | SubstitutionCheck \<Rightarrow> substitution_pool
      | OtherShape \<Rightarrow> generic_pool
      | ValidEquation \<Rightarrow> [code_point 0x2705 @ ustr '' Valid equation!'']
      | ValidExpression \<Rightarrow> [code_point 0x2705 @ ustr '' Valid expression!'']
      | GoodStep \<Rightarrow> [code_point 0x1F44D @ ustr '' Good step!'']
      | Incomplete \<Rightarrow> [code_point 0x1F914 @ ustr '' Write a complete equation.''])"

section \<open>Sample responses\<close>

definition in_fence :: "jsstring \<Rightarrow> jsstring \<Rightarrow> jsstring \<Rightarrow> jsstring" where
  \<comment> \<open>a text in a \<open>json\<close> code fence, with prose before and after\<close>
  "in_fence before text after =
     before @ [10] @ ustr ''```json'' @ [10] @ text @ [10] @ ustr ''```'' @ [10] @ after"

definition good_json :: jsstring where
  \<comment> \<open>a well-formed validation result\<close>
  "good_json =
     ustr ''{'' @ [34] @ ustr ''isCorrect'' @ [34] @ ustr '': true, '' @ [34] @
     ustr ''feedback'' @ [34] @ ustr '': '' @ [34] @ ustr ''Good move!'' @ [34] @
     ustr '', '' @ [34] @ ustr ''confidence'' @ [34] @ ustr '': 0.9}''"

definition fenced_response :: jsstring where
  \<comment> \<open>prose, the JSON object in a code fence, prose\<close>
  "fenced_response = in_fence (ustr ''Here is the result:'') good_json (ustr ''Done.'')"

definition escaped_quote_json :: jsstring where
  \<comment> \<open>a well-formed JSON object whose string holds two escaped quotes\<close>
  "escaped_quote_json =
     ustr ''{'' @ [34] @ ustr ''feedback'' @ [34] @ ustr '':'' @ [34] @ ustr ''Say '' @ [92] @
     [34] @ ustr ''hi'' @ [92] @ [34] @ [34] @ ustr '','' @ [34] @ ustr ''isCorrect'' @ [34] @
     ustr '':true}''"

definition empty_suggestions_response :: jsstring where
  \<comment> \<open>a well-formed evaluation with no suggestions\<close>
  "empty_suggestions_response =
     ustr ''{'' @ [34] @ ustr ''score'' @ [34] @ ustr '': 95, '' @ [34] @ ustr ''feedback'' @
     [34] @ ustr '': '' @ [34] @ ustr ''Great'' @ [34] @ ustr '', '' @ [34] @
     ustr ''suggestions'' @ [34] @ ustr '': []}''"

definition two_of_three :: SolutionData where
  \<comment> \<open>three steps, the second one wrong\<close>
  "two_of_three =
     \<lparr>originalQuestion = ustr ''2x + 3 = 11'',
      steps = [\<lparr>stepNumber = 1, step_latex = ustr ''2x = 11 - 3'', step_isCorrect = True,
                step_feedback = code_point 0x1F44D @ ustr '' Good move!''\<rparr>,
               \<lparr>stepNumber = 2, step_latex = ustr ''2x = 9'', step_isCorrect = False,
                step_feedback = code_point 0x1F914 @ ustr '' Check: 11 - 3 = 8''\<rparr>,
               \<lparr>stepNumber = 3, step_latex = ustr ''x = 4'', step_isCorrect = True,
                step_feedback = code_point 0x1F3AF @ ustr '' Perfect! You found the value of x!''\<rparr>]\<rparr>"

section \<open>Properties\<close>

subsection \<open>Helper lemmas: rounding to a double\<close>

lemma bit_length_bounds:
  "0 < n \<Longrightarrow> 0 < bit_length n \<and> 2 ^ nat (bit_length n - 1) \<le> n \<and> n < 2 ^ nat (bit_length n)"
proof (induction n rule: bit_length.induct)
  case (1 n)
  show ?case
  proof (cases "n div 2 = 0")
    case True
    with 1(2) have "n = 1" by simp
    then show ?thesis
      by (simp add: bit_length.simps [of 1] bit_length.simps [of 0])
  next
    case False
    with 1(2) have pos: "0 < n div 2" by simp
    define b where "b = bit_length (n div 2)"
    from 1(1) 1(2) pos have ih: "0 < b" "2 ^ nat (b - 1) \<le> n div 2" "n div 2 < 2 ^ nat b"
      by (simp_all add: b_def)
    have bl: "bit_length n = 1 + b"
      using 1(2) by (simp add: bit_length.simps [of n] b_def)
    have e1: "nat (1 + b - 1) = Suc (nat (b - 1))"
      using ih(1) by simp
    have e2: "nat (1 + b) = Suc (nat b)"
      using ih(1) by simp
    have e3: "nat b = Suc (nat (b - 1))"
      using ih(1) by simp
    from ih(2) have "(2::int) ^ nat b \<le> n" by (simp add: e3)
    moreover from ih(3) have "n < 2 * 2 ^ nat b" by linarith
    ultimately show ?thesis
      using ih(1) by (simp add: bl e2)
  qed
qed

lemma pow2_powr: "pow2 e = 2 powr (of_int e)"
  by (simp add: pow2_def powr_real_of_int inverse_eq_divide)

lemma pow2_pos [simp]: "0 < pow2 e"
  by (simp add: pow2_powr)

lemma pow2_nonzero [simp]: "pow2 e \<noteq> 0"
  by (simp add: pow2_powr)

lemma pow2_add: "pow2 (a + b) = pow2 a * pow2 b"
  by (simp add: pow2_powr powr_add)

lemma pow2_mono: "a \<le> b \<Longrightarrow> pow2 a \<le> pow2 b"
  by (simp add: pow2_powr)

lemma pow2_less_iff: "pow2 a < pow2 b \<longleftrightarrow> a < b"
  by (simp add: pow2_powr)

lemma pow2_nat: "0 \<le> e \<Longrightarrow> pow2 e = 2 ^ nat e"
  by (simp add: pow2_def)

lemma binade_bounds:
  assumes "0 < a"
  shows "pow2 (binade a) \<le> a \<and> a < pow2 (binade a + 1)"
proof (cases "1 \<le> a")
  case True
  define n where "n = \<lfloor>a\<rfloor>"
  define b where "b = bit_length n"
  from True have n: "0 < n" by (simp add: n_def)
  from bit_length_bounds [OF n]
  have b: "0 < b" "2 ^ nat (b - 1) \<le> n" "n < 2 ^ nat b"
    by (simp_all add: b_def)
  have be: "binade a = b - 1"
    using True by (simp add: binade_def n_def b_def)
  have "(2::real) ^ nat (b - 1) \<le> of_int n"
    using b(2) by simp
  also have "\<dots> \<le> a" by (simp add: n_def)
  finally have lo: "pow2 (b - 1) \<le> a"
    using b(1) by (simp add: pow2_nat)
  from b(3) have "n + 1 \<le> 2 ^ nat b" by simp
  then have "of_int (n + 1) \<le> (2::real) ^ nat b"
    by (simp only: of_int_le_numeral_power_cancel_iff)
  moreover have "a < of_int (n + 1)" by (simp add: n_def)
  ultimately have hi: "a < pow2 b"
    using b(1) by (simp add: pow2_nat)
  from lo hi show ?thesis by (simp add: be)
next
  case False
  define y where "y = \<lceil>1 / a\<rceil>"
  define b where "b = bit_length (y - 1)"
  from False assms have "1 < 1 / a" by simp
  then have y2: "2 \<le> y" unfolding y_def by linarith
  then have "0 < y - 1" by simp
  from bit_length_bounds [OF this]
  have b: "0 < b" "2 ^ nat (b - 1) \<le> y - 1" "y - 1 < 2 ^ nat b"
    by (simp_all add: b_def)
  have be: "binade a = - b"
    using False by (simp add: binade_def y_def b_def)
  from b(3) have "y \<le> 2 ^ nat b" by simp
  then have "of_int y \<le> (2::real) ^ nat b"
    by simp
  moreover have "1 / a \<le> of_int y" by (simp add: y_def)
  ultimately have "1 / a \<le> 2 ^ nat b" by linarith
  with assms have "1 \<le> a * 2 ^ nat b"
    by (simp add: field_simps)
  then have lo: "pow2 (- b) \<le> a"
    using b(1) by (simp add: pow2_def field_simps)
  have "(2::real) ^ nat (b - 1) \<le> of_int (y - 1)"
    using b(2) by (simp only: numeral_power_le_of_int_cancel_iff)
  moreover have "of_int (y - 1) < 1 / a"
    unfolding y_def by linarith
  ultimately have "2 ^ nat (b - 1) < 1 / a" by linarith
  with assms have "a * 2 ^ nat (b - 1) < 1"
    by (simp add: field_simps)
  moreover have "nat (- (- b + 1)) = nat (b - 1)" by simp
  ultimately have hi: "a < pow2 (- b + 1)"
    using b(1) False by (cases "b = 1") (simp_all add: pow2_def field_simps)
  from lo hi show ?thesis by (simp add: be)
qed

lemma binade_ge: "0 < a \<Longrightarrow> pow2 e \<le> a \<Longrightarrow> e \<le> binade a"
  using binade_bounds [of a] pow2_less_iff [of e "binade a + 1"] by linarith

lemma binade_le: "0 < a \<Longrightarrow> a < pow2 (e + 1) \<Longrightarrow> binade a \<le> e"
  using binade_bounds [of a] pow2_less_iff [of "binade a" "e + 1"] by linarith

lemma round_half_even_error: "\<bar>of_int (round_half_even z) - z\<bar> \<le> 1 / 2"
  unfolding round_half_even_def Let_def by (simp; linarith)

lemma round_half_even_int [simp]: "round_half_even (of_int n) = n"
  by (simp add: round_half_even_def)

lemma round_half_even_le: "z \<le> of_int N \<Longrightarrow> round_half_even z \<le> N"
  unfolding round_half_even_def Let_def by (simp; linarith)

lemma round_half_even_ge: "of_int N \<le> z \<Longrightarrow> N \<le> round_half_even z"
  unfolding round_half_even_def Let_def by (simp; linarith)

lemma round_half_even_below: "z < of_int N - 1 / 2 \<Longrightarrow> round_half_even z \<le> N - 1"
  unfolding round_half_even_def Let_def by (simp; linarith)



lemma pow2_inverse: "pow2 (- e) = 1 / pow2 e"
  by (simp add: pow2_powr powr_minus inverse_eq_divide)

lemma pow2_0 [simp]: "pow2 0 = 1"
  by (simp add: pow2_def)

lemma fl_pos:
  assumes "0 < a"
  shows "fl a =
    (let u = pow2 (max (binade a) (- 1022) - 52);
         y = of_int (round_half_even (a / u)) * u
     in if 2 ^ 1024 \<le> y then PosInf else Num y)"
proof -
  define e where "e = max (binade a) (- 1022)"
  define u where "u = pow2 (e - 52)"
  define m where "m = round_half_even (a / u)"
  have u0: "0 < u" by (simp add: u_def)
  have p53: "pow2 53 = of_int (2 ^ 53)" and p52: "pow2 52 = of_int (2 ^ 52)"
    by (simp_all add: pow2_def)
  have top: "pow2 (e + 1) = of_int (2 ^ 53) * u"
  proof -
    have eq: "e + 1 = (e - 52) + 53" by linarith
    have "pow2 (e + 1) = pow2 (e - 52) * pow2 53"
      unfolding eq by (rule pow2_add)
    then show ?thesis by (simp only: p53 u_def mult.commute)
  qed
  have bottom: "pow2 e = of_int (2 ^ 52) * u"
  proof -
    have eq: "e = (e - 52) + 52" by linarith
    have "pow2 ((e - 52) + 52) = pow2 (e - 52) * pow2 52" by (rule pow2_add)
    with eq have "pow2 e = pow2 (e - 52) * pow2 52" by simp
    then show ?thesis by (simp only: p52 u_def mult.commute)
  qed
  have "a < pow2 (binade a + 1)"
    using binade_bounds [OF assms] by simp
  also have "\<dots> \<le> pow2 (e + 1)"
    by (rule pow2_mono) (simp add: e_def)
  finally have "a < pow2 (e + 1)" .
  then have "a < of_int (2 ^ 53) * u" by (simp only: top)
  then have "a / u \<le> of_int (2 ^ 53)"
    using u0 by (simp add: pos_divide_le_eq)
  from round_half_even_le [OF this] have m_hi: "m \<le> 2 ^ 53" by (simp add: m_def)
  then have "of_int m \<le> (of_int (2 ^ 53) :: real)" by (simp only: of_int_le_iff)
  then have "of_int m * u \<le> of_int (2 ^ 53) * u"
    using u0 by (simp add: mult_right_mono)
  then have y_hi: "of_int m * u \<le> pow2 (e + 1)" by (simp only: top)
  have p1024: "pow2 1024 = 2 ^ 1024" by (simp add: pow2_def)
  have "(1024 \<le> e \<or> (e = 1023 \<and> m = 2 ^ 53)) \<longleftrightarrow> 2 ^ 1024 \<le> of_int m * u"
  proof (cases "1024 \<le> e")
    case True
    then have "e = binade a" by (simp add: e_def)
    then have "pow2 e \<le> a"
      using binade_bounds [OF assms] by simp
    then have "of_int (2 ^ 52) * u \<le> a" by (simp only: bottom)
    then have "of_int (2 ^ 52) \<le> a / u"
      using u0 by (simp add: pos_le_divide_eq)
    from round_half_even_ge [OF this] have "2 ^ 52 \<le> m" by (simp add: m_def)
    then have "(of_int (2 ^ 52) :: real) \<le> of_int m" by (simp only: of_int_le_iff)
    then have "of_int (2 ^ 52) * u \<le> of_int m * u"
      using u0 by (simp add: mult_right_mono)
    then have "pow2 e \<le> of_int m * u" by (simp only: bottom)
    moreover have "pow2 1024 \<le> pow2 e"
      using True by (rule pow2_mono)
    ultimately show ?thesis using True p1024 by simp
  next
    case False
    show ?thesis
    proof (cases "e = 1023")
      case True
      have u971: "u = pow2 971" by (simp add: u_def True)
      have split: "pow2 1024 = of_int (2 ^ 53) * u"
        using top by (simp add: True)
      show ?thesis
      proof (cases "m = 2 ^ 53")
        case True
        with split p1024 \<open>e = 1023\<close> show ?thesis by simp
      next
        case False
        with m_hi have "m < 2 ^ 53" by simp
        then have "of_int m < (of_int (2 ^ 53) :: real)" by (simp only: of_int_less_iff)
        then have "of_int m * u < of_int (2 ^ 53) * u"
          using u0 by (simp add: mult_strict_right_mono)
        then have "of_int m * u < 2 ^ 1024" by (simp only: split [symmetric] p1024)
        with False \<open>e = 1023\<close> show ?thesis by simp
      qed
    next
      case False
      with \<open>\<not> 1024 \<le> e\<close> have "e + 1 \<le> 1023" by simp
      then have "pow2 (e + 1) \<le> pow2 1023" by (rule pow2_mono)
      moreover have "pow2 1023 < 2 ^ 1024" by (simp add: pow2_def)
      ultimately have "of_int m * u < 2 ^ 1024" using y_hi by linarith
      with False \<open>\<not> 1024 \<le> e\<close> show ?thesis by simp
    qed
  qed
  then show ?thesis
    using assms
    by (simp add: fl_def round_magnitude_def Let_def e_def [symmetric] u_def [symmetric]
        m_def [symmetric])
qed

lemma fl_neg: "fl (- x) = js_neg (fl x)"
proof -
  consider "x = 0" | "0 < x" | "x < 0" by linarith
  then show ?thesis
    by cases (simp_all add: fl_def js_neg_def split: jsnum.splits)
qed

lemma fl_int_pos:
  assumes "0 < n" and "n \<le> 2 ^ 53"
  shows "fl (of_int n) = Num (of_int n)"
proof -
  define a :: real where "a = of_int n"
  define e where "e = binade a"
  have a0: "0 < a" "1 \<le> a"
    using assms(1) by (simp_all add: a_def)
  have "a \<le> 2 ^ 53"
    unfolding a_def using assms(2) by simp
  then have a_hi: "a < pow2 (53 + 1)"
    by (simp add: pow2_def)
  have e_lo: "0 \<le> e"
    unfolding e_def using binade_ge [of a 0] a0 by simp
  have e_hi: "e \<le> 53"
    unfolding e_def using binade_le [OF a0(1) a_hi] .
  have "(2::real) ^ 53 < 2 ^ 1024" by simp
  with \<open>a \<le> 2 ^ 53\<close> have small: "a < 2 ^ 1024" by linarith
  have "round_half_even (a / pow2 (e - 52)) * pow2 (e - 52) = a"
  proof (cases "e \<le> 52")
    case True
    have "pow2 (52 - e) = 1 / pow2 (e - 52)"
      using pow2_inverse [of "e - 52"] by simp
    then have "a / pow2 (e - 52) = a * pow2 (52 - e)"
      by simp
    also have "\<dots> = of_int (n * 2 ^ nat (52 - e))"
      using True by (simp add: a_def pow2_nat)
    finally have q: "a / pow2 (e - 52) = of_int (n * 2 ^ nat (52 - e))" .
    have "of_int (round_half_even (a / pow2 (e - 52))) = a / pow2 (e - 52)"
      unfolding q by (simp only: round_half_even_int)
    then show ?thesis by simp
  next
    case False
    with e_hi have e53: "e = 53" by simp
    have "pow2 53 \<le> a"
      using binade_bounds [OF a0(1)] by (simp add: e_def [symmetric] e53)
    with \<open>a \<le> 2 ^ 53\<close> have "a = 2 ^ 53"
      by (simp add: pow2_def)
    then have "a / pow2 (e - 52) = of_int (2 ^ 52)"
      by (simp add: e53 pow2_def)
    then have "of_int (round_half_even (a / pow2 (e - 52))) = a / pow2 (e - 52)"
      by (simp only: round_half_even_int)
    then show ?thesis by simp
  qed
  with a0 e_lo small show ?thesis
    by (simp add: fl_pos Let_def e_def [symmetric] a_def [symmetric] max_def)
qed

lemma fl_int:
  assumes "\<bar>n\<bar> \<le> 2 ^ 53"
  shows "fl (of_int n) = Num (of_int n)"
proof -
  consider "n = 0" | "0 < n" | "n < 0" by linarith
  then show ?thesis
  proof cases
    case 1
    then show ?thesis by (simp add: fl_def)
  next
    case 2
    with assms show ?thesis by (simp add: fl_int_pos)
  next
    case 3
    with assms have "fl (of_int (- n)) = Num (of_int (- n))"
      by (intro fl_int_pos) simp_all
    then have "fl (- of_int n) = Num (- of_int n)" by simp
    then show ?thesis
      by (simp add: fl_neg js_neg_def split: jsnum.splits)
  qed
qed

lemma fl_error:
  assumes "pow2 (- 1022) \<le> a" and "a \<le> 2 ^ 1023"
  shows "\<exists>y. fl a = Num y \<and> \<bar>y - a\<bar> \<le> a / 2 ^ 53"
proof -
  define e where "e = binade a"
  define u where "u = pow2 (e - 52)"
  define m where "m = round_half_even (a / u)"
  have a0: "0 < a"
    using assms(1) pow2_pos [of "- 1022"] by linarith
  have e_lo: "- 1022 \<le> e"
    unfolding e_def using binade_ge [OF a0 assms(1)] .
  have u0: "0 < u" by (simp add: u_def)
  have "\<bar>of_int m - a / u\<bar> \<le> 1 / 2"
    unfolding m_def by (rule round_half_even_error)
  then have "\<bar>of_int m - a / u\<bar> * u \<le> 1 / 2 * u"
    using u0 by (simp add: mult_right_mono)
  moreover have "of_int m * u - a = (of_int m - a / u) * u"
    using u0 by (simp add: left_diff_distrib)
  then have "\<bar>of_int m - a / u\<bar> * u = \<bar>of_int m * u - a\<bar>"
    using u0 by (simp only: abs_mult abs_of_pos)
  ultimately have err: "\<bar>of_int m * u - a\<bar> \<le> u / 2" by simp
  have "u = pow2 e * pow2 (- 52)"
    unfolding u_def using pow2_add [of e "- 52"] by simp
  also have "\<dots> = pow2 e / 2 ^ 52"
    by (simp add: pow2_def)
  finally have u_eq: "u = pow2 e / 2 ^ 52" .
  have "pow2 e \<le> a"
    unfolding e_def using binade_bounds [OF a0] by simp
  then have "u / 2 \<le> a / 2 ^ 53"
    by (simp add: u_eq)
  with err have rel: "\<bar>of_int m * u - a\<bar> \<le> a / 2 ^ 53" by linarith
  have "a / 2 ^ 53 \<le> a" using a0 by (simp add: field_simps)
  with rel have "of_int m * u \<le> 2 * a" by linarith
  with assms(2) have "of_int m * u \<le> 2 * 2 ^ 1023" by linarith
  moreover have "of_int m * u \<noteq> 2 ^ 1024"
  proof
    assume "of_int m * u = 2 ^ 1024"
    with rel have "2 ^ 1024 - a \<le> a / 2 ^ 53" by linarith
    then have "2 ^ 1024 \<le> a * (1 + 1 / 2 ^ 53)" by (simp add: algebra_simps)
    also have "\<dots> \<le> 2 ^ 1023 * (1 + 1 / 2 ^ 53)"
      using assms(2) by (simp add: mult_right_mono)
    finally show False by simp
  qed
  ultimately have "of_int m * u < 2 ^ 1024" by simp
  with a0 e_lo rel show ?thesis
    by (simp add: fl_pos Let_def e_def [symmetric] u_def [symmetric] m_def [symmetric] max_def)
qed

lemma fl_not_NaN [simp]: "fl x \<noteq> NaN"
  by (simp add: fl_def round_magnitude_def Let_def js_neg_def)

lemma fl_bounded:
  assumes "0 \<le> a" and "a \<le> of_int N" and "N \<le> 2 ^ 53"
  shows "\<exists>y. fl a = Num y \<and> 0 \<le> y \<and> y \<le> of_int N"
proof (cases "a = 0")
  case True
  with assms show ?thesis by (simp add: fl_def)
next
  case False
  with assms(1) have a0: "0 < a" by simp
  show ?thesis
  proof (cases "a = 2 ^ 53")
    case True
    then have "a = of_int (2 ^ 53)" by simp
    moreover have "fl (of_int (2 ^ 53)) = Num (of_int (2 ^ 53))"
      by (rule fl_int) simp
    ultimately show ?thesis using assms by auto
  next
    case False
    have N53: "of_int N \<le> (2::real) ^ 53"
      using assms(3) by simp
    with assms(2) False have "a < 2 ^ 53" by linarith
    then have "a < pow2 (52 + 1)" by (simp add: pow2_def)
    from binade_le [OF a0 this] have e52: "binade a \<le> 52" .
    define e where "e = max (binade a) (- 1022)"
    define u where "u = pow2 (e - 52)"
    define m where "m = round_half_even (a / u)"
    have e_hi: "e \<le> 52" using e52 by (simp add: e_def)
    have u0: "0 < u" by (simp add: u_def)
    have "pow2 (52 - e) = 1 / u"
      unfolding u_def using pow2_inverse [of "e - 52"] by simp
    then have inv: "1 / u = of_int (2 ^ nat (52 - e))"
      using e_hi by (simp add: pow2_nat)
    have "a / u \<le> of_int N / u"
      using assms(2) u0 by (simp add: divide_right_mono)
    also have "of_int N / u = of_int N * (1 / u)" by simp
    also have "\<dots> = of_int (N * 2 ^ nat (52 - e))"
      unfolding inv by simp
    finally have "m \<le> N * 2 ^ nat (52 - e)"
      unfolding m_def by (rule round_half_even_le)
    then have "of_int m \<le> (of_int (N * 2 ^ nat (52 - e)) :: real)"
      by (simp only: of_int_le_iff)
    also have "\<dots> = of_int N * (1 / u)"
      unfolding inv by simp
    finally have "of_int m \<le> of_int N / u" by simp
    then have hi: "of_int m * u \<le> of_int N"
      using u0 by (simp add: pos_le_divide_eq)
    have "0 \<le> a / u" using a0 u0 by simp
    then have "of_int 0 \<le> a / u" by simp
    from round_half_even_ge [OF this] have "0 \<le> m" by (simp add: m_def)
    with u0 have lo: "0 \<le> of_int m * u" by simp
    have "(2::real) ^ 53 < 2 ^ 1024" by simp
    with hi N53 have "of_int m * u < 2 ^ 1024" by linarith
    with a0 lo hi show ?thesis
      by (simp add: fl_pos Let_def e_def [symmetric] u_def [symmetric] m_def [symmetric])
  qed
qed

lemma random_draw_top:
  assumes "random_draw r" and "0 < r"
  shows "r \<le> 1 - 1 / 2 ^ 53"
  \<comment> \<open>a double below 1 is at most \<open>1 - 2^-53\<close>\<close>
proof -
  from assms have r: "0 \<le> r" "r < 1" "fl r = Num r" and rpos: "0 < r"
    by (simp_all add: random_draw_def)
  show ?thesis
  proof (cases "r < 1 / 2")
    case True
    then show ?thesis by simp
  next
    case False
    then have "pow2 (- 1) \<le> r" by (simp add: pow2_def)
    from binade_ge [OF rpos this] have "- 1 \<le> binade r" .
    moreover from r(2) have "r < pow2 (- 1 + 1)" by simp
    from binade_le [OF rpos this] have "binade r \<le> - 1" .
    ultimately have b: "binade r = - 1" by simp
    define m where "m = round_half_even (r / pow2 (- 53))"
    from r(3) rpos b have rm: "r = of_int m * pow2 (- 53)"
      by (simp add: fl_pos Let_def m_def split: if_splits)
    have p: "pow2 (- 53) = 1 / 2 ^ 53" by (simp add: pow2_def)
    from rm r(2) have "of_int m < (2::real) ^ 53"
      by (simp add: p field_simps)
    then have "m < 2 ^ 53"
      by simp
    then have "m \<le> 2 ^ 53 - 1" by simp
    then have "of_int m \<le> (2::real) ^ 53 - 1"
      by simp
    then show ?thesis
      by (simp add: rm p field_simps)
  qed
qed

lemma random_index_bound:
  assumes "random_draw r" and "0 < len" and "int len \<le> 2 ^ 53"
  shows "random_index r len < len"
proof -
  define x where "x = r * real len"
  from assms(1) have r: "0 \<le> r" "r < 1" "fl r = Num r"
    by (simp_all add: random_draw_def)
  have x_lt: "x < real len"
    using r(2) assms(2) by (simp add: x_def)
  have x0: "0 \<le> x"
    using r(1) by (simp add: x_def)
  show ?thesis
  proof (cases "x = 0")
    case True
    with assms(2) show ?thesis
      by (simp add: random_index_def x_def [symmetric] fl_def)
  next
    case False
    with x0 have xpos: "0 < x" by simp
    have "r \<noteq> 0" using False by (auto simp add: x_def)
    with r(1) have rpos: "0 < r" by simp
    from random_draw_top [OF assms(1) rpos] have r_top: "r \<le> 1 - 1 / 2 ^ 53" .
    define e where "e = binade x"
    define u where "u = pow2 (max e (- 1022) - 52)"
    define m where "m = round_half_even (x / u)"
    have u0: "0 < u" by (simp add: u_def)
    have bx: "pow2 e \<le> x" "x < pow2 (e + 1)"
      using binade_bounds [OF xpos] by (simp_all add: e_def)
    have up: "x < pow2 (max e (- 1022) + 1)"
      using bx(2) pow2_mono [of "e + 1" "max e (- 1022) + 1"] by simp
    have p53: "pow2 53 = of_int (2 ^ 53)" and p52: "pow2 52 = of_int (2 ^ 52)"
      by (simp_all add: pow2_def)
    have top: "pow2 (max e (- 1022) + 1) = of_int (2 ^ 53) * u"
    proof -
      have eq: "max e (- 1022) + 1 = (max e (- 1022) - 52) + 53" by linarith
      have "pow2 (max e (- 1022) + 1) = pow2 (max e (- 1022) - 52) * pow2 53"
        unfolding eq by (rule pow2_add)
      then show ?thesis by (simp only: p53 u_def mult.commute)
    qed
    have below: "of_int m * u < real len"
    proof (cases "pow2 (max e (- 1022) + 1) < real len")
      case True
      from up top have "x / u \<le> of_int (2 ^ 53)"
        using u0 by (simp add: field_simps)
      from round_half_even_le [OF this] have "m \<le> 2 ^ 53" by (simp add: m_def)
      then have "of_int m \<le> (of_int (2 ^ 53) :: real)" by (simp only: of_int_le_iff)
      then have "of_int m * u \<le> of_int (2 ^ 53) * u"
        using u0 by (simp add: mult_right_mono)
      with True top show ?thesis by simp
    next
      case False
      then have ge: "real len \<le> pow2 (max e (- 1022) + 1)" by simp
      have "1 \<le> real len" using assms(2) by simp
      with ge have "pow2 0 \<le> pow2 (max e (- 1022) + 1)" by simp
      then have "0 \<le> max e (- 1022) + 1"
        using pow2_less_iff [of "max e (- 1022) + 1" 0] by linarith
      then have e_lo: "- 1 \<le> e" by simp
      then have me: "max e (- 1022) = e" by simp
      have "real len \<le> 2 ^ 53"
        using assms(3) by simp
      with x_lt have "x < pow2 (52 + 1)" by (simp add: pow2_def)
      from binade_le [OF xpos this] have e_hi: "e \<le> 52" by (simp add: e_def)
      have "pow2 (52 - e) = 1 / u"
        unfolding u_def me using pow2_inverse [of "e - 52"] by simp
      then have inv: "1 / u = of_int (2 ^ nat (52 - e))"
        using e_hi by (simp add: pow2_nat)
      define K where "K = int len * 2 ^ nat (52 - e)"
      have K: "of_int K = real len / u"
      proof -
        have "real len / u = real len * (1 / u)" by simp
        also have "\<dots> = real len * of_int (2 ^ nat (52 - e))" by (simp only: inv)
        finally show ?thesis by (simp add: K_def)
      qed
      have half: "pow2 e = of_int (2 ^ 52) * u"
      proof -
        have eq: "e = (e - 52) + 52" by linarith
        have "pow2 ((e - 52) + 52) = pow2 (e - 52) * pow2 52" by (rule pow2_add)
        with eq have "pow2 e = pow2 (e - 52) * pow2 52" by simp
        then show ?thesis by (simp only: p52 u_def me mult.commute)
      qed
      have "x \<le> real len - real len / 2 ^ 53"
        using r_top assms(2) by (simp add: x_def field_simps)
      moreover have "pow2 e < real len"
        using bx(1) x_lt by linarith
      then have "u / 2 < real len / 2 ^ 53"
        by (simp add: half field_simps)
      ultimately have "x < real len - u / 2" by linarith
      then have "x / u < real len / u - 1 / 2"
        using u0 by (simp add: field_simps)
      then have "x / u < of_int K - 1 / 2" by (simp add: K)
      from round_half_even_below [OF this] have "m \<le> K - 1" by (simp add: m_def)
      then have "of_int m \<le> (of_int (K - 1) :: real)" by (simp only: of_int_le_iff)
      then have "of_int m * u \<le> of_int (K - 1) * u"
        using u0 by (simp add: mult_right_mono)
      also have "\<dots> = real len - u"
        using u0 by (simp add: K left_diff_distrib)
      finally show ?thesis using u0 by linarith
    qed
    have "0 \<le> x / u" using xpos u0 by simp
    then have "of_int 0 \<le> x / u" by simp
    from round_half_even_ge [OF this] have m0: "0 \<le> m" by (simp add: m_def)
    have "real len \<le> 2 ^ 53"
      using assms(3) by simp
    moreover have "(2::real) ^ 53 < 2 ^ 1024" by simp
    ultimately have "of_int m * u < 2 ^ 1024"
      using below by linarith
    then have flx: "fl x = Num (of_int m * u)"
      using xpos by (simp add: fl_pos Let_def e_def [symmetric] u_def [symmetric] m_def [symmetric])
    have "\<lfloor>of_int m * u\<rfloor> < int len"
      using below by (simp add: floor_less_iff)
    moreover have "0 \<le> \<lfloor>of_int m * u\<rfloor>"
      using m0 u0 by simp
    ultimately have "nat \<lfloor>of_int m * u\<rfloor> < len"
      by (simp add: nat_less_iff)
    with flx show ?thesis
      by (simp add: random_index_def x_def [symmetric])
  qed
qed

lemma pick_in_pool:
  assumes "pool \<noteq> []" and "int (length pool) \<le> 2 ^ 53" and "random_draw r"
  shows "pick pool r \<in> set pool"
  using random_index_bound [OF assms(3) _ assms(2)] assms(1) by (simp add: pick_def)

subsection \<open>Helper lemmas: the percentage of correct steps\<close>

lemma percentage_all_correct:
  assumes "0 < t"
  shows "percentage t t = Num 100"
proof -
  have "fl (of_int 1) = Num (of_int 1)" by (rule fl_int) simp
  moreover have "fl (of_int 100) = Num (of_int 100)" by (rule fl_int) simp
  ultimately show ?thesis
    using assms by (simp add: percentage_def)
qed

lemma percentage_range:
  assumes "c \<le> t" and "0 < t"
  shows "\<exists>y. percentage c t = Num y \<and> 0 \<le> y \<and> y \<le> 100"
proof -
  have "0 \<le> real c / real t" by simp
  moreover have "real c / real t \<le> of_int 1"
    using assms by simp
  ultimately obtain q where q: "fl (real c / real t) = Num q" "0 \<le> q" "q \<le> 1"
    using fl_bounded [of "real c / real t" 1] by auto
  have "0 \<le> q * 100" using q(2) by simp
  moreover have "q * 100 \<le> of_int 100" using q(3) by simp
  ultimately obtain y where "fl (q * 100) = Num y" "0 \<le> y" "y \<le> 100"
    using fl_bounded [of "q * 100" 100] by auto
  with q(1) show ?thesis by (simp add: percentage_def)
qed

lemma percentage_error:
  assumes "c \<le> t" and "0 < t" and "t < 2 ^ 32"
  shows "\<exists>y. percentage c t = Num y \<and> \<bar>y - 100 * real c / real t\<bar> \<le> 201 / 2 ^ 53"
proof (cases "c = 0")
  case True
  then show ?thesis by (simp add: percentage_def fl_def)
next
  case False
  define q where "q = real c / real t"
  have t32: "real t < 2 ^ 32"
    using assms(3) by (metis of_nat_less_iff of_nat_numeral of_nat_power)
  have "1 \<le> real c" using False by simp
  then have "1 / real t \<le> q"
    using assms(2) by (simp add: q_def divide_right_mono)
  moreover have "1 / 2 ^ 32 < 1 / real t"
    using t32 assms(2) by (simp add: field_simps)
  ultimately have q_lo: "1 / 2 ^ 32 < q" by linarith
  have q_hi: "q \<le> 1"
    using assms(1,2) by (simp add: q_def)
  have tiny: "pow2 (- 1022) \<le> 1 / 2 ^ 34"
    by (simp add: pow2_def)
  have "pow2 (- 1022) \<le> q" using tiny q_lo by simp
  moreover have "q \<le> 2 ^ 1023" using q_hi by simp
  ultimately obtain q' where q': "fl q = Num q'" "\<bar>q' - q\<bar> \<le> q / 2 ^ 53"
    using fl_error [of q] by auto
  have "q / 2 ^ 53 \<le> q / 2" using q_lo by simp
  with q'(2) have q'_lo: "q / 2 \<le> q'" by linarith
  have q'_hi: "q' \<le> q + q / 2 ^ 53" using q'(2) by linarith
  have "1 / 2 ^ 34 \<le> q' * 100" using q'_lo q_lo by simp
  with tiny have "pow2 (- 1022) \<le> q' * 100" by linarith
  moreover have "q' * 100 \<le> 200" using q'_hi q_hi by simp
  then have "q' * 100 \<le> 2 ^ 1023" by simp
  ultimately obtain y where y: "fl (q' * 100) = Num y" "\<bar>y - q' * 100\<bar> \<le> q' * 100 / 2 ^ 53"
    using fl_error [of "q' * 100"] by auto
  have "q / 2 ^ 53 \<le> 1 / 2 ^ 53" using q_hi by (simp add: divide_right_mono)
  with q'(2) have d1: "\<bar>q' - q\<bar> \<le> 1 / 2 ^ 53" by linarith
  from q'_hi q_hi have "q' \<le> 1 + 1 / 2 ^ 53"
    using \<open>q / 2 ^ 53 \<le> 1 / 2 ^ 53\<close> by linarith
  then have "q' * 100 / 2 ^ 53 \<le> (1 + 1 / 2 ^ 53) * 100 / 2 ^ 53"
    by (simp add: divide_right_mono)
  also have "\<dots> \<le> 101 / 2 ^ 53" by simp
  finally have d2: "\<bar>y - q' * 100\<bar> \<le> 101 / 2 ^ 53" using y(2) by linarith
  from d1 have a: "q' - q \<le> 1 / 2 ^ 53" "q - q' \<le> 1 / 2 ^ 53" by linarith+
  from d2 have b: "y - q' * 100 \<le> 101 / 2 ^ 53" "q' * 100 - y \<le> 101 / 2 ^ 53" by linarith+
  have "y - 100 * q \<le> 201 / 2 ^ 53" using a b by linarith
  moreover have "100 * q - y \<le> 201 / 2 ^ 53" using a b by linarith
  ultimately have "\<bar>y - 100 * q\<bar> \<le> 201 / 2 ^ 53" by linarith
  moreover have "percentage c t = Num y"
    using q'(1) y(1) by (simp add: percentage_def q_def)
  ultimately show ?thesis by (auto simp add: q_def)
qed

lemma rounded_percentage:
  assumes "c \<le> t" and "0 < t" and "t < 2 ^ 32"
  shows "\<exists>n. Math_round (percentage c t) = Num (of_int n) \<and>
     \<bar>of_int n - 100 * real c / real t\<bar> \<le> 1 / 2"
proof -
  define p where "p = 100 * real c / real t"
  from percentage_error [OF assms] obtain y where
    y: "percentage c t = Num y" "\<bar>y - p\<bar> \<le> 201 / 2 ^ 53"
    by (auto simp add: p_def)
  define n where "n = \<lfloor>y + 1 / 2\<rfloor>"
  have n1: "of_int n \<le> y + 1 / 2" and n2: "y + 1 / 2 < of_int n + 1"
    unfolding n_def by linarith+
  have tpos: "0 < real t" using assms(2) by simp
  have t32: "real t < 2 ^ 32"
    using assms(3) by (metis of_nat_less_iff of_nat_numeral of_nat_power)
  have gap: "201 / 2 ^ 53 < 1 / (2 * real t)"
  proof -
    have "201 / 2 ^ 53 < 1 / ((2::real) * 2 ^ 32)" by simp
    also have "\<dots> < 1 / (2 * real t)"
      using t32 tpos by (simp add: field_simps)
    finally show ?thesis .
  qed
  have pt: "p * real t = real (100 * c)"
    using tpos by (simp add: p_def)
  have upper: "of_int n - p \<le> 1 / 2"
  proof (rule ccontr)
    assume "\<not> of_int n - p \<le> 1 / 2"
    then have "p + 1 / 2 < of_int n" by simp
    then have "(p + 1 / 2) * (2 * real t) < of_int n * (2 * real t)"
      using tpos by (simp only: mult_less_cancel_right_pos mult_pos_pos zero_less_numeral)
    then have "real (200 * c + t) < real_of_int (n * 2 * int t)"
      using pt by (simp add: algebra_simps)
    then have "int (200 * c + t) < n * 2 * int t"
      by (metis of_int_less_iff of_int_of_nat_eq)
    then have "int (200 * c + t) + 1 \<le> n * 2 * int t" by simp
    then have "real_of_int (int (200 * c + t) + 1) \<le> real_of_int (n * 2 * int t)"
      by (simp only: of_int_le_iff)
    then have "(p + 1 / 2) * (2 * real t) + 1 \<le> of_int n * (2 * real t)"
      using pt by (simp add: algebra_simps)
    then have "(p + 1 / 2) + 1 / (2 * real t) \<le> of_int n"
      using tpos by (simp add: field_simps)
    with n1 y(2) gap show False by linarith
  qed
  have lower: "p - of_int n \<le> 1 / 2"
  proof (rule ccontr)
    assume "\<not> p - of_int n \<le> 1 / 2"
    then have "of_int n + 1 / 2 < p" by simp
    then have "(of_int n + 1 / 2) * (2 * real t) < p * (2 * real t)"
      using tpos by (simp only: mult_less_cancel_right_pos mult_pos_pos zero_less_numeral)
    then have "real_of_int (n * 2 * int t + int t) < real (200 * c)"
      using pt by (simp add: algebra_simps)
    then have "n * 2 * int t + int t < int (200 * c)"
      by (metis of_int_less_iff of_int_of_nat_eq)
    then have "n * 2 * int t + int t + 1 \<le> int (200 * c)" by simp
    then have "real_of_int (n * 2 * int t + int t + 1) \<le> real_of_int (int (200 * c))"
      by (simp only: of_int_le_iff)
    then have "(of_int n + 1 / 2) * (2 * real t) + 1 \<le> p * (2 * real t)"
      using pt by (simp add: algebra_simps)
    then have "(of_int n + 1 / 2) + 1 / (2 * real t) \<le> p"
      using tpos by (simp add: field_simps)
    with n2 y(2) gap show False by linarith
  qed
  from upper lower have "\<bar>of_int n - p\<bar> \<le> 1 / 2" by linarith
  then show ?thesis
    using y(1) by (auto simp add: Math_round_def n_def p_def)
qed

lemma percentage_below_100:
  assumes "c < t" and "t < 2 ^ 32"
  shows "percentage c t \<noteq> Num 100"
proof
  assume eq: "percentage c t = Num 100"
  have tpos: "0 < real t" using assms(1) by simp
  from assms(1) have "c \<le> t" "0 < t" by simp_all
  from percentage_error [OF this assms(2)] eq
  have err: "\<bar>100 - 100 * real c / real t\<bar> \<le> 201 / 2 ^ 53" by simp
  have t32: "real t < 2 ^ 32"
    using assms(2) by (metis of_nat_less_iff of_nat_numeral of_nat_power)
  have "real c + 1 \<le> real t" using assms(1) by linarith
  then have "100 * real c / real t \<le> 100 * (real t - 1) / real t"
    using tpos by (simp add: divide_right_mono)
  also have "\<dots> = 100 - 100 / real t"
    using tpos by (simp add: field_simps)
  finally have "100 / real t \<le> 100 - 100 * real c / real t" by linarith
  moreover have "100 / 2 ^ 32 < 100 / real t"
    using t32 tpos by (simp add: field_simps)
  moreover have "(201::real) / 2 ^ 53 < 100 / 2 ^ 32" by simp
  ultimately show False using err by linarith
qed

subsection \<open>Helper lemmas: trimming and the verdict\<close>

lemma trim_trim: "trim (trim s) = trim s"
proof -
  define t where "t = dropWhile is_space s"
  define v where "v = dropWhile is_space (rev t)"
  have t: "t = [] \<or> \<not> is_space (hd t)"
    unfolding t_def using hd_dropWhile [of is_space s] by blast
  have v: "v = [] \<or> \<not> is_space (hd v)"
    unfolding v_def using hd_dropWhile [of is_space "rev t"] by blast
  have "dropWhile is_space (rev v) = rev v"
  proof (cases "v = []")
    case True
    then show ?thesis by simp
  next
    case False
    have "rev t = takeWhile is_space (rev t) @ v"
      unfolding v_def by simp
    with False have "last (rev t) = last v"
      by (metis last_appendR)
    moreover from False have "t \<noteq> []"
      unfolding v_def by auto
    ultimately have "hd (rev v) = hd t"
      using False by (simp add: hd_rev last_rev)
    with t \<open>t \<noteq> []\<close> show ?thesis
      by (simp add: dropWhile_eq_self_iff)
  qed
  moreover have "dropWhile is_space v = v"
    using v by (simp add: dropWhile_eq_self_iff)
  ultimately show ?thesis
    by (simp add: trim_def t_def [symmetric] v_def [symmetric])
qed

lemma pools_nonempty:
  "found_x_pool \<noteq> []" "coefficient_pool \<noteq> []" "move_term_pool \<noteq> []"
  "arithmetic_pool \<noteq> []" "division_pool \<noteq> []" "verification_pool \<noteq> []"
  "substitution_pool \<noteq> []" "generic_pool \<noteq> []"
  by (simp_all add: found_x_pool_def coefficient_pool_def move_term_pool_def
      arithmetic_pool_def division_pool_def verification_pool_def substitution_pool_def
      generic_pool_def)

lemma step_feedback_verdict:
  "isCorrect (getStepSpecificFeedback r1 s) = isCorrect (getStepSpecificFeedback r2 s) \<and>
   confidence (getStepSpecificFeedback r1 s) = confidence (getStepSpecificFeedback r2 s) \<and>
   explanation (getStepSpecificFeedback r1 s) = explanation (getStepSpecificFeedback r2 s)"
  by (simp add: getStepSpecificFeedback_def Let_def split: option.splits)

lemma fallback_verdict:
  "isCorrect (fallbackValidation r1 s) = isCorrect (fallbackValidation r2 s) \<and>
   confidence (fallbackValidation r1 s) = confidence (fallbackValidation r2 s) \<and>
   explanation (fallbackValidation r1 s) = explanation (fallbackValidation r2 s)"
  using step_feedback_verdict [of r1 "trim s" r2]
  by (simp add: fallbackValidation_def Let_def split: option.splits)

subsection \<open>Verification steps\<close>

text \<open>
  Claim C6. For the input \<open>11 = 11\<close>, a self-equality check, the heuristic validator
  answers \<open>isCorrect: true\<close> with a confidence of at least 0.9, whatever the random
  draw: no mistake detector fires, the first known-good shape matches, and the
  verification branch of the feedback is reached with confidence 0.95.
\<close>

theorem verification_step_accepted:
  "isCorrect (fallbackValidation rnd (ustr ''11 = 11'')) = True \<and>
   confidence (fallbackValidation rnd (ustr ''11 = 11'')) = Num 0.95 \<and>
   js_ge (confidence (fallbackValidation rnd (ustr ''11 = 11''))) (Num 0.9)"
  by code_simp

theorem verification_step_accepted_witness:
  "isCorrect (fallbackValidation (1 / 2) (ustr ''11 = 11'')) = True \<and>
   confidence (fallbackValidation (1 / 2) (ustr ''11 = 11'')) = Num 0.95 \<and>
   js_ge (confidence (fallbackValidation (1 / 2) (ustr ''11 = 11''))) (Num 0.9)"
  by (rule verification_step_accepted)

subsection \<open>Helper lemmas: capture groups do not change what a pattern matches\<close>

lemma reached_simp [simp]: "reached (j, t, h) = (j, t)"
  by (simp add: reached_def)

lemma greedy_reached:
  "map reached (greedy p i s g) = map reached (greedy p i s g')"
  by (induction s arbitrary: i) simp_all

lemma reached_concat_map:
  assumes "\<And>x. x \<in> set xs \<Longrightarrow> map reached (f x) = F (reached x)"
  shows "map reached (concat (map f xs)) = concat (map F (map reached xs))"
  using assms by (induction xs) simp_all

lemma rmatch_erase_groups:
  "backref_free r \<Longrightarrow>
   map reached (rmatch r (i, s, g)) = map reached (rmatch (erase_groups r) (i, s, g'))"
proof (induction r arbitrary: i s g g')
  case (Seq a b)
  define F where "F = (\<lambda>(j, t). map reached (rmatch (erase_groups b) (j, t, Map.empty)))"
  have b: "map reached (rmatch b x) = F (reached x)" for x
  proof (cases x)
    case (fields j t h)
    then show ?thesis
      using Seq.IH(2) [of j t h Map.empty] Seq.prems by (simp add: F_def)
  qed
  have b': "map reached (rmatch (erase_groups b) x) = F (reached x)" for x
  proof (cases x)
    case (fields j t h)
    then show ?thesis
      using Seq.IH(2) [of j t Map.empty h] Seq.IH(2) [of j t Map.empty Map.empty] Seq.prems
      by (simp add: F_def)
  qed
  have a: "map reached (rmatch a (i, s, g)) = map reached (rmatch (erase_groups a) (i, s, g'))"
    using Seq.IH(1) Seq.prems by simp
  show ?case
    by (simp add: reached_concat_map [of _ "rmatch b" F, OF b]
        reached_concat_map [of _ "rmatch (erase_groups b)" F, OF b'] a)
next
  case (Alt a b)
  show ?case
    using Alt.IH(1) [of i s g g'] Alt.IH(2) [of i s g g'] Alt.prems by simp
next
  case (Grp n r)
  have "map reached (rmatch (Grp n r) (i, s, g)) = map reached (rmatch r (i, s, g))"
    by (simp add: comp_def split_beta reached_def)
  with Grp.IH [of i s g g'] Grp.prems show ?case by simp
qed (simp_all add: greedy_reached split: list.splits)

lemma rmatch_erase_Nil:
  assumes "backref_free r"
  shows "(rmatch r (i, s, g) = []) = (rmatch (erase_groups r) (i, s, g') = [])"
  using rmatch_erase_groups [OF assms, of i s g g'] by (metis map_is_Nil_conv)

lemma exec_from_erase_groups:
  "backref_free r \<Longrightarrow> (exec_from r i s = None) = (exec_from (erase_groups r) i s = None)"
proof (induction s arbitrary: i)
  case Nil
  then show ?case
    using rmatch_erase_Nil [of r i "[]" Map.empty Map.empty]
    by (auto split: list.splits)
next
  case (Cons c cs)
  then show ?case
    using rmatch_erase_Nil [of r i "c # cs" Map.empty Map.empty]
    by (auto split: list.splits)
qed

lemma regex_test_erase_groups:
  "backref_free r \<Longrightarrow> regex_test (erase_groups r) s = regex_test r s"
  using exec_from_erase_groups [of r 0 s] by (simp add: regex_test_def regex_exec_def)

lemma sign_error_erase: "erase_groups sign_error_match = sign_error_test"
  by (simp add: sign_error_match_def sign_error_test_def seqs_def)

lemma sign_error_backref_free: "backref_free sign_error_match"
  by (simp add: sign_error_match_def seqs_def)

lemma sign_error_match_iff: "regex_test sign_error_match s = regex_test sign_error_test s"
  using regex_test_erase_groups [OF sign_error_backref_free] by (simp add: sign_error_erase)

lemma sign_error_verdict:
  assumes "regex_test sign_error_test (trim latex)"
  shows "\<exists>m. regex_exec sign_error_match (trim latex) = Some m \<and>
     fallbackValidation rnd latex =
       \<lparr>isCorrect = False,
        feedback = code_point 0x1F914 @ ustr '' Check signs: when moving '' @ capture m 3 @
                   ustr '', it should become -'' @ capture m 3,
        explanation = JStr sign_flip_explanation,
        confidence = Num 0.85\<rparr>"
proof -
  from assms have "regex_test sign_error_match (trim latex)"
    by (simp add: sign_error_match_iff)
  then obtain m where m: "regex_exec sign_error_match (trim latex) = Some m"
    by (auto simp add: regex_test_def)
  with assms show ?thesis
    by (simp add: fallbackValidation_def checkForCommonMistakes_def trim_trim Let_def)
qed

subsection \<open>Mistake detectors run first\<close>

text \<open>
  Claim C5. The mistake detectors are evaluated before the known-good shapes and the
  generic acceptance rules: whenever a detector gives a verdict on the trimmed input,
  that verdict is the result. The input \<open>2x = 11 + 3\<close> matches the move-term shape
  of the known-good feedback, and has an equals sign and a digit, which the rule for a
  valid equation accepts; it is flagged incorrect by the sign-error detector, with
  the explanation that a term moved across the equals sign changes its sign.
\<close>

theorem mistake_detectors_run_first:
  "(checkForCommonMistakes (trim latex) = Some verdict \<longrightarrow>
      fallbackValidation rnd latex = verdict) \<and>
   regex_test move_term_re (ustr ''2x = 11 + 3'') \<and>
   str_includes (ustr ''2x = 11 + 3'') (ustr ''='') \<and>
   regex_test has_numbers_re (ustr ''2x = 11 + 3'') \<and>
   fallbackValidation rnd (ustr ''2x = 11 + 3'') =
     \<lparr>isCorrect = False,
      feedback = code_point 0x1F914 @
                 ustr '' Check signs: when moving 3, it should become -3'',
      explanation = JStr sign_flip_explanation,
      confidence = Num 0.85\<rparr>"
proof (intro conjI impI)
  assume "checkForCommonMistakes (trim latex) = Some verdict"
  then show "fallbackValidation rnd latex = verdict"
    by (simp add: fallbackValidation_def Let_def)
next
  show "regex_test move_term_re (ustr ''2x = 11 + 3'')"
    by code_simp
next
  show "str_includes (ustr ''2x = 11 + 3'') (ustr ''='')"
    by code_simp
next
  show "regex_test has_numbers_re (ustr ''2x = 11 + 3'')"
    by code_simp
next
  show "fallbackValidation rnd (ustr ''2x = 11 + 3'') =
     \<lparr>isCorrect = False,
      feedback = code_point 0x1F914 @
                 ustr '' Check signs: when moving 3, it should become -3'',
      explanation = JStr sign_flip_explanation,
      confidence = Num 0.85\<rparr>"
    by code_simp
qed

theorem mistake_detectors_run_first_witness:
  "checkForCommonMistakes (trim (ustr ''5 + 3 = 9'')) =
     Some \<lparr>isCorrect = False,
           feedback = code_point 0x274C @ ustr '' Arithmetic error: 5 + 3 = 8, not 9'',
           explanation = JUndefined,
           confidence = Num 0.95\<rparr> \<and>
   fallbackValidation (1 / 2) (ustr ''5 + 3 = 9'') =
     \<lparr>isCorrect = False,
      feedback = code_point 0x274C @ ustr '' Arithmetic error: 5 + 3 = 8, not 9'',
      explanation = JUndefined,
      confidence = Num 0.95\<rparr>"
proof -
  have h: "checkForCommonMistakes (trim (ustr ''5 + 3 = 9'')) =
     Some \<lparr>isCorrect = False,
           feedback = code_point 0x274C @ ustr '' Arithmetic error: 5 + 3 = 8, not 9'',
           explanation = JUndefined,
           confidence = Num 0.95\<rparr>"
    by code_simp
  from h mistake_detectors_run_first [of "ustr ''5 + 3 = 9''" _ "1 / 2"]
  show ?thesis by blast
qed

subsection \<open>The sign-error detector does not look at the arithmetic\<close>

text \<open>
  Claim C10. The variable is optional in the pattern of the sign-error detector, so
  every input whose trimmed text matches \<open>/^\d*x?\s*=\s*\d+\s*\+\s*\d+$/\<close>, with or
  without a variable, is flagged incorrect with confidence 0.85 and the sign-flip
  explanation, before any arithmetic is recomputed. The true statement
  \<open>14 = 11 + 3\<close> is flagged in this way.
\<close>

theorem sign_error_flags_true_sums:
  "(regex_test sign_error_test (trim latex) \<longrightarrow>
      isCorrect (fallbackValidation rnd latex) = False \<and>
      explanation (fallbackValidation rnd latex) = JStr sign_flip_explanation \<and>
      confidence (fallbackValidation rnd latex) = Num 0.85) \<and>
   regex_test sign_error_test (ustr ''14 = 11 + 3'') \<and>
   fallbackValidation rnd (ustr ''14 = 11 + 3'') =
     \<lparr>isCorrect = False,
      feedback = code_point 0x1F914 @
                 ustr '' Check signs: when moving 3, it should become -3'',
      explanation = JStr sign_flip_explanation,
      confidence = Num 0.85\<rparr>"
proof (intro conjI impI)
  assume "regex_test sign_error_test (trim latex)"
  from sign_error_verdict [OF this, of rnd]
  show "isCorrect (fallbackValidation rnd latex) = False"
    and "explanation (fallbackValidation rnd latex) = JStr sign_flip_explanation"
    and "confidence (fallbackValidation rnd latex) = Num 0.85"
    by auto
next
  show "regex_test sign_error_test (ustr ''14 = 11 + 3'')"
    by code_simp
next
  show "fallbackValidation rnd (ustr ''14 = 11 + 3'') =
     \<lparr>isCorrect = False,
      feedback = code_point 0x1F914 @
                 ustr '' Check signs: when moving 3, it should become -3'',
      explanation = JStr sign_flip_explanation,
      confidence = Num 0.85\<rparr>"
    by code_simp
qed

theorem sign_error_flags_true_sums_witness:
  "regex_test sign_error_test (trim (ustr '' 7 = 3 + 4 '')) \<and>
   isCorrect (fallbackValidation (1 / 2) (ustr '' 7 = 3 + 4 '')) = False \<and>
   explanation (fallbackValidation (1 / 2) (ustr '' 7 = 3 + 4 '')) = JStr sign_flip_explanation \<and>
   confidence (fallbackValidation (1 / 2) (ustr '' 7 = 3 + 4 '')) = Num 0.85"
proof -
  have h: "regex_test sign_error_test (trim (ustr '' 7 = 3 + 4 ''))"
    by code_simp
  from h sign_error_flags_true_sums [of "ustr '' 7 = 3 + 4 ''" "1 / 2"]
  show ?thesis by blast
qed

subsection \<open>Helper lemmas: what a match implies about the text\<close>

lemma greedy_sound:
  "(j, t, h) \<in> set (greedy p i s g) \<Longrightarrow>
   \<exists>w. s = w @ t \<and> j = i + length w \<and> list_all p w \<and> h = g"
proof (induction s arbitrary: i)
  case Nil
  then show ?case by simp
next
  case (Cons c cs)
  show ?case
  proof (cases "p c \<and> (j, t, h) \<in> set (greedy p (Suc i) cs g)")
    case True
    with Cons.IH [of "Suc i"] obtain w where "cs = w @ t" "j = Suc i + length w" "list_all p w" "h = g"
      by blast
    with True have "c # cs = (c # w) @ t \<and> j = i + length (c # w) \<and> list_all p (c # w) \<and> h = g"
      by simp
    then show ?thesis by blast
  next
    case False
    with Cons.prems have "(j, t, h) = (i, c # cs, g)"
      by (auto split: if_splits)
    then have "c # cs = [] @ t \<and> j = i + length ([]::jsstring) \<and> list_all p [] \<and> h = g"
      by simp
    then show ?thesis by blast
  qed
qed

lemma rmatch_sound:
  "(j, t, h) \<in> set (rmatch r (i, s, g)) \<Longrightarrow>
   \<exists>w. s = w @ t \<and> j = i + length w \<and> accepts r i w t"
proof (induction r arbitrary: i s g j t h)
  case (Cls p)
  then show ?case by (auto split: list.splits if_splits)
next
  case (Star p)
  then show ?case using greedy_sound [of j t h p i s g] by auto
next
  case (Plus p)
  then obtain c cs where s: "s = c # cs" "p c" "(j, t, h) \<in> set (greedy p (Suc i) cs g)"
    by (auto split: list.splits if_splits)
  from greedy_sound [OF s(3)] obtain w where "cs = w @ t" "j = Suc i + length w" "list_all p w"
    by blast
  with s have "s = (c # w) @ t \<and> j = i + length (c # w) \<and> accepts (Plus p) i (c # w) t"
    by simp
  then show ?case by blast
next
  case (Opt p)
  then show ?case by (auto split: list.splits if_splits)
next
  case (Seq a b)
  from Seq.prems obtain j1 t1 h1 where
    a: "(j1, t1, h1) \<in> set (rmatch a (i, s, g))" and b: "(j, t, h) \<in> set (rmatch b (j1, t1, h1))"
    by auto
  from Seq.IH(1) [OF a] obtain u where u: "s = u @ t1" "j1 = i + length u" "accepts a i u t1"
    by blast
  from Seq.IH(2) [OF b] obtain v where v: "t1 = v @ t" "j = j1 + length v" "accepts b j1 v t"
    by blast
  from u v have "s = (u @ v) @ t \<and> j = i + length (u @ v) \<and> accepts (Seq a b) i (u @ v) t"
    by auto
  then show ?case by blast
next
  case (Alt a b)
  then show ?case by (auto; blast)
next
  case (Grp n r)
  from Grp.prems obtain h' where "(j, t, h') \<in> set (rmatch r (i, s, g))"
    by auto
  from Grp.IH [OF this] show ?case by simp
next
  case (Backref n)
  then show ?case
  proof (cases "g n")
    case None
    with Backref show ?thesis by auto
  next
    case (Some w)
    with Backref have w: "take (length w) s = w" "t = drop (length w) s" "j = i + length w"
      by (auto split: if_splits)
    have "s = take (length w) s @ drop (length w) s" by simp
    with w have "s = w @ t \<and> j = i + length w \<and> accepts (Backref n) i w t"
      by simp
    then show ?thesis by blast
  qed
next
  case Bol
  then show ?case by (auto split: if_splits)
next
  case Eol
  then show ?case by (auto split: if_splits)
next
  case Eps
  then show ?case by auto
qed

lemma exec_from_sound:
  "exec_from r i s = Some m \<Longrightarrow>
   \<exists>k j t h. k \<le> length s \<and> (j, t, h) \<in> set (rmatch r (i + k, drop k s, Map.empty))"
proof (induction s arbitrary: i)
  case Nil
  then show ?case by (auto split: list.splits)
next
  case (Cons c cs)
  show ?case
  proof (cases "rmatch r (i, c # cs, Map.empty)")
    case Nil
    with Cons.prems have "exec_from r (Suc i) cs = Some m" by simp
    from Cons.IH [OF this] obtain k j t h where
      "k \<le> length cs" "(j, t, h) \<in> set (rmatch r (Suc i + k, drop k cs, Map.empty))"
      by blast
    then have "Suc k \<le> length (c # cs) \<and>
        (j, t, h) \<in> set (rmatch r (i + Suc k, drop (Suc k) (c # cs), Map.empty))"
      by simp
    then show ?thesis by blast
  next
    case (Cons st sts)
    obtain j t h where "st = (j, t, h)" by (cases st)
    with Cons have "0 \<le> length (c # cs) \<and>
        (j, t, h) \<in> set (rmatch r (i + 0, drop 0 (c # cs), Map.empty))"
      by simp
    then show ?thesis by blast
  qed
qed

lemma regex_test_accepts:
  assumes "regex_test r s"
  shows "\<exists>k w t. k \<le> length s \<and> drop k s = w @ t \<and> accepts r k w t"
proof -
  from assms obtain m where "exec_from r 0 s = Some m"
    by (auto simp add: regex_test_def regex_exec_def)
  from exec_from_sound [OF this] obtain k j t h where
    k: "k \<le> length s" "(j, t, h) \<in> set (rmatch r (k, drop k s, Map.empty))"
    by auto
  from rmatch_sound [OF k(2)] k(1) show ?thesis by blast
qed

lemma op_signs_append [simp]: "op_signs (u @ v) = op_signs u @ op_signs v"
  by (simp add: op_signs_def)

lemma op_signs_Nil [simp]: "op_signs [] = []"
  by (simp add: op_signs_def)

lemma op_signs_Cons [simp]:
  "op_signs (c # cs) = (if c = 61 \<or> c = 43 \<or> c = 45 then c # op_signs cs else op_signs cs)"
  by (simp add: op_signs_def)

lemma op_signs_digits: "list_all is_digit w \<Longrightarrow> op_signs w = []"
  by (induction w) (auto simp add: is_digit_def)

lemma op_signs_spaces: "list_all is_space w \<Longrightarrow> op_signs w = []"
  by (induction w) (auto simp add: is_space_def)

lemma sign_error_op_signs:
  assumes "accepts sign_error_test k w t"
  shows "k = 0 \<and> t = [] \<and> op_signs w = [61, 43]"
  using assms
  by (auto simp add: sign_error_test_def seqs_def op_signs_digits op_signs_spaces lit_def)

lemma arithmetic_op_signs:
  assumes "accepts arithmetic_match k w t"
  shows "k = 0 \<and> t = [] \<and> (op_signs w = [43, 61] \<or> op_signs w = [45, 61])"
  using assms
  by (auto simp add: arithmetic_match_def seqs_def op_signs_digits op_signs_spaces lit_def
      one_of_def ustr_def)

lemma arithmetic_not_sign_error:
  assumes "regex_exec arithmetic_match s = Some m"
  shows "\<not> regex_test sign_error_test s"
proof
  assume "regex_test sign_error_test s"
  from regex_test_accepts [OF this] sign_error_op_signs
  have 1: "op_signs s = [61, 43]" by fastforce
  from assms have "regex_test arithmetic_match s"
    by (simp add: regex_test_def)
  from regex_test_accepts [OF this] arithmetic_op_signs
  have "op_signs s = [43, 61] \<or> op_signs s = [45, 61]" by fastforce
  with 1 show False by simp
qed

subsection \<open>Helper lemmas: captured digits and numbers\<close>

lemma greedy_complete:
  "list_all p s \<Longrightarrow> (i + length s, [], g) \<in> set (greedy p i s g)"
proof (induction s arbitrary: i)
  case Nil
  then show ?case by simp
next
  case (Cons c cs)
  from Cons.IH [of "Suc i"] Cons.prems
  have "(Suc i + length cs, [], g) \<in> set (greedy p (Suc i) cs g)" by simp
  with Cons.prems show ?case by simp
qed

lemma rmatch_groups:
  assumes "(j, t, h) \<in> set (rmatch r (i, s, g))"
    and "\<forall>(n, b) \<in> set (group_bodies r). \<forall>i w t. accepts b i w t \<longrightarrow> Q n w"
    and "\<forall>n w. g n = Some w \<longrightarrow> Q n w"
  shows "\<forall>n w. h n = Some w \<longrightarrow> Q n w"
  using assms
proof (induction r arbitrary: i s g j t h)
  case (Cls p)
  then show ?case by (auto split: list.splits if_splits)
next
  case (Star p)
  with greedy_sound [of j t h p i s g] show ?case by auto
next
  case (Plus p)
  then obtain c cs where "(j, t, h) \<in> set (greedy p (Suc i) cs g)"
    by (auto split: list.splits if_splits)
  from greedy_sound [OF this] Plus.prems(3) show ?case by auto
next
  case (Opt p)
  then show ?case by (auto split: list.splits if_splits)
next
  case (Seq a b)
  from Seq.prems(1) obtain j1 t1 h1 where
    a: "(j1, t1, h1) \<in> set (rmatch a (i, s, g))" and b: "(j, t, h) \<in> set (rmatch b (j1, t1, h1))"
    by auto
  from Seq.prems(2) have qa: "\<forall>(n, b) \<in> set (group_bodies a). \<forall>i w t. accepts b i w t \<longrightarrow> Q n w"
    and qb: "\<forall>(n, c) \<in> set (group_bodies b). \<forall>i w t. accepts c i w t \<longrightarrow> Q n w"
    by auto
  from Seq.IH(1) [OF a qa Seq.prems(3)] have "\<forall>n w. h1 n = Some w \<longrightarrow> Q n w" .
  from Seq.IH(2) [OF b qb this] show ?case .
next
  case (Alt a b)
  from Alt.prems(2) have qa: "\<forall>(n, b) \<in> set (group_bodies a). \<forall>i w t. accepts b i w t \<longrightarrow> Q n w"
    and qb: "\<forall>(n, c) \<in> set (group_bodies b). \<forall>i w t. accepts c i w t \<longrightarrow> Q n w"
    by auto
  from Alt.prems(1) consider "(j, t, h) \<in> set (rmatch a (i, s, g))"
    | "(j, t, h) \<in> set (rmatch b (i, s, g))" by auto
  then show ?case
  proof cases
    case 1
    from Alt.IH(1) [OF 1 qa Alt.prems(3)] show ?thesis .
  next
    case 2
    from Alt.IH(2) [OF 2 qb Alt.prems(3)] show ?thesis .
  qed
next
  case (Grp n r)
  from Grp.prems(1) obtain h' where
    r: "(j, t, h') \<in> set (rmatch r (i, s, g))" and h: "h = h'(n \<mapsto> take (j - i) s)"
    by auto
  from Grp.prems(2) have qr: "\<forall>(k, b) \<in> set (group_bodies r). \<forall>i w t. accepts b i w t \<longrightarrow> Q k w"
    and q: "\<forall>i w t. accepts r i w t \<longrightarrow> Q n w"
    by auto
  from Grp.IH [OF r qr Grp.prems(3)] have h': "\<forall>k w. h' k = Some w \<longrightarrow> Q k w" .
  from rmatch_sound [OF r] obtain w where "s = w @ t" "j = i + length w" "accepts r i w t"
    by blast
  with q have "Q n (take (j - i) s)" by auto
  with h h' show ?case by auto
next
  case (Backref n)
  then show ?case by (auto split: option.splits if_splits)
next
  case Bol
  then show ?case by (auto split: if_splits)
next
  case Eol
  then show ?case by (auto split: if_splits)
next
  case Eps
  then show ?case by auto
qed

lemma greedy_keeps: "(j, t, h) \<in> set (greedy p i s g) \<Longrightarrow> h = g"
  by (induction s arbitrary: i) (auto split: if_splits)

lemma rmatch_defined:
  assumes "(j, t, h) \<in> set (rmatch r (i, s, g))"
  shows "(\<forall>n. g n \<noteq> None \<longrightarrow> h n \<noteq> None) \<and> (\<forall>n \<in> set (must_groups r). h n \<noteq> None)"
  using assms
proof (induction r arbitrary: i s g j t h)
  case (Cls p)
  then show ?case by (auto split: list.splits if_splits)
next
  case (Star p)
  with greedy_keeps [of j t h p i s g] show ?case by simp
next
  case (Plus p)
  then obtain c cs where "(j, t, h) \<in> set (greedy p (Suc i) cs g)"
    by (auto split: list.splits if_splits)
  from greedy_keeps [OF this] show ?case by simp
next
  case (Opt p)
  then show ?case by (auto split: list.splits if_splits)
next
  case (Seq a b)
  from Seq.prems obtain j1 t1 h1 where
    a: "(j1, t1, h1) \<in> set (rmatch a (i, s, g))" and b: "(j, t, h) \<in> set (rmatch b (j1, t1, h1))"
    by auto
  from Seq.IH(1) [OF a] Seq.IH(2) [OF b] show ?case by auto
next
  case (Alt a b)
  from Alt.prems consider "(j, t, h) \<in> set (rmatch a (i, s, g))"
    | "(j, t, h) \<in> set (rmatch b (i, s, g))" by auto
  then show ?case
  proof cases
    case 1
    from Alt.IH(1) [OF 1] show ?thesis by simp
  next
    case 2
    from Alt.IH(2) [OF 2] show ?thesis by simp
  qed
next
  case (Grp n r)
  from Grp.prems obtain h' where
    r: "(j, t, h') \<in> set (rmatch r (i, s, g))" and h: "h = h'(n \<mapsto> take (j - i) s)"
    by auto
  from Grp.IH [OF r] h show ?case by auto
next
  case (Backref n)
  then show ?case by (auto split: option.splits if_splits)
next
  case Bol
  then show ?case by (auto split: if_splits)
next
  case Eol
  then show ?case by (auto split: if_splits)
next
  case Eps
  then show ?case by auto
qed

lemma exec_from_groups:
  "exec_from r i s = Some m \<Longrightarrow>
   \<exists>k j t. (j, t, m_groups m) \<in> set (rmatch r (i + k, drop k s, Map.empty))"
proof (induction s arbitrary: i)
  case Nil
  then obtain j t h sts where "rmatch r (i, [], Map.empty) = (j, t, h) # sts" "m_groups m = h"
    by (auto split: list.splits)
  then have "(j, t, m_groups m) \<in> set (rmatch r (i + 0, drop 0 [], Map.empty))"
    by simp
  then show ?case by blast
next
  case (Cons c cs)
  show ?case
  proof (cases "rmatch r (i, c # cs, Map.empty)")
    case Nil
    with Cons.prems have "exec_from r (Suc i) cs = Some m" by simp
    from Cons.IH [OF this] obtain k j t where
      "(j, t, m_groups m) \<in> set (rmatch r (Suc i + k, drop k cs, Map.empty))"
      by blast
    then have "(j, t, m_groups m) \<in> set (rmatch r (i + Suc k, drop (Suc k) (c # cs), Map.empty))"
      by simp
    then show ?thesis by blast
  next
    case (Cons st sts)
    obtain j t h where st: "st = (j, t, h)" by (cases st)
    with Cons Cons.prems have "m_groups m = h" by auto
    with Cons st have "(j, t, m_groups m) \<in> set (rmatch r (i + 0, drop 0 (c # cs), Map.empty))"
      by simp
    then show ?thesis by blast
  qed
qed

lemma regex_exec_groups:
  assumes "regex_exec r s = Some m"
    and "\<forall>(n, b) \<in> set (group_bodies r). \<forall>i w t. accepts b i w t \<longrightarrow> Q n w"
  shows "(capture m n = [] \<or> Q n (capture m n)) \<and>
    (n \<in> set (must_groups r) \<longrightarrow> Q n (capture m n))"
proof -
  from assms(1) exec_from_groups [of r 0 s m] obtain k j t where
    st: "(j, t, m_groups m) \<in> set (rmatch r (k, drop k s, Map.empty))"
    by (auto simp add: regex_exec_def)
  from rmatch_groups [OF this assms(2)] have "\<forall>n w. m_groups m n = Some w \<longrightarrow> Q n w"
    by simp
  moreover from rmatch_defined [OF st]
  have "n \<in> set (must_groups r) \<longrightarrow> m_groups m n \<noteq> None" by simp
  ultimately show ?thesis
    by (auto simp add: capture_def split: option.splits)
qed

lemma score_text_captures:
  assumes "regex_exec score_text_re s = Some m"
  shows "capture m n = [] \<or> digit_text (capture m n)"
proof -
  have "\<forall>(n, b) \<in> set (group_bodies score_text_re). \<forall>i w t. accepts b i w t \<longrightarrow> digit_text w"
    by (auto simp add: score_text_re_def seqs_def lits_def ilits_def digit_text_def)
  from regex_exec_groups [OF assms, where Q = "\<lambda>n. digit_text", OF this] show ?thesis
    by simp
qed

lemma dropWhile_none:
  assumes "\<forall>c \<in> set xs. \<not> P c"
  shows "dropWhile P xs = xs"
  using assms by (cases xs) simp_all

lemma trim_digit_text:
  assumes "digit_text w"
  shows "trim w = w"
proof -
  have "\<not> is_space c" if "is_digit c" for c
    using that by (auto simp add: is_digit_def is_space_def)
  with assms have n: "\<forall>c \<in> set w. \<not> is_space c"
    by (auto simp add: digit_text_def list_all_iff)
  then have "\<forall>c \<in> set (rev w). \<not> is_space c" by simp
  with n show ?thesis
    by (simp add: trim_def dropWhile_none)
qed

lemma seq_member:
  "st1 \<in> set (rmatch a st) \<Longrightarrow> st2 \<in> set (rmatch b st1) \<Longrightarrow> st2 \<in> set (rmatch (Seq a b) st)"
  by auto

lemma alt_left: "st' \<in> set (rmatch a st) \<Longrightarrow> st' \<in> set (rmatch (Alt a b) st)"
  by simp

lemma alt_right: "st' \<in> set (rmatch b st) \<Longrightarrow> st' \<in> set (rmatch (Alt a b) st)"
  by simp

lemma bol_member: "(0, s, g) \<in> set (rmatch Bol (0, s, g))"
  by simp

lemma eol_member: "(i, [], g) \<in> set (rmatch Eol (i, [], g))"
  by simp

lemma eps_member: "st \<in> set (rmatch Eps st)"
  by simp

lemma opt_stay: "(i, s, g) \<in> set (rmatch (Opt p) (i, s, g))"
  by (simp split: list.splits)

lemma plus_all:
  "p c \<Longrightarrow> list_all p cs \<Longrightarrow> (Suc i + length cs, [], g) \<in> set (rmatch (Plus p) (i, c # cs, g))"
  using greedy_complete [of p cs "Suc i" g] by simp

lemma decimal_matches_digits:
  assumes "digit_text w"
  shows "regex_exec str_decimal_re w \<noteq> None"
proof -
  from assms obtain c cs where w: "w = c # cs" and c: "is_digit c" and cs: "list_all is_digit cs"
    by (cases w) (auto simp add: digit_text_def)
  have e: "erase_groups str_decimal_re =
      Seq Bol (Seq (Opt (one_of (ustr ''+-'')))
        (Seq (Alt (Seq (Plus is_digit)
                    (Seq (Alt (Seq (Cls (lit CHR ''.'')) (Star is_digit)) Eps) Eps))
                  (Seq (Cls (lit CHR ''.'')) (Seq (Plus is_digit) Eps)))
          (Seq (Alt (Seq (Cls (one_of (ustr ''eE'')))
                      (Seq (Opt (one_of (ustr ''+-''))) (Seq (Plus is_digit) Eps))) Eps)
            (Seq Eol Eps))))"
    by (simp add: str_decimal_re_def exponent_part_def seqs_def)
  have "(Suc 0 + length cs, [], Map.empty) \<in>
      set (rmatch (erase_groups str_decimal_re) (0, c # cs, Map.empty))"
    unfolding e
    apply (rule seq_member, rule bol_member)
    apply (rule seq_member, rule opt_stay)
    apply (rule seq_member, rule alt_left, rule seq_member, rule plus_all [OF c cs],
        rule seq_member, rule alt_right, rule eps_member, rule eps_member)
    apply (rule seq_member, rule alt_right, rule eps_member)
    apply (rule seq_member, rule eol_member, rule eps_member)
    done
  then have "rmatch (erase_groups str_decimal_re) (0, w, Map.empty) \<noteq> []"
    unfolding w by (metis empty_iff empty_set)
  moreover have "backref_free str_decimal_re"
    by (simp add: str_decimal_re_def exponent_part_def seqs_def)
  ultimately have "rmatch str_decimal_re (0, w, Map.empty) \<noteq> []"
    using rmatch_erase_Nil by blast
  then show ?thesis
    by (auto simp add: regex_exec_def w split: list.splits)
qed

lemma string_to_number_digits:
  assumes "w = [] \<or> digit_text w"
  shows "string_to_number w \<noteq> NaN"
proof (cases "w = []")
  case True
  then show ?thesis by (simp add: string_to_number_def trim_def)
next
  case False
  with assms have d: "digit_text w" by simp
  from decimal_matches_digits [OF d] obtain m where m: "regex_exec str_decimal_re w = Some m"
    by auto
  show ?thesis
  proof (cases "regex_exec str_infinity_re w")
    case None
    with m False show ?thesis
      by (simp add: string_to_number_def trim_digit_text [OF d] Let_def)
  next
    case (Some m')
    with False show ?thesis
      by (simp add: string_to_number_def trim_digit_text [OF d] Let_def)
  qed
qed

subsection \<open>Helper lemmas: the numbers of an arithmetic step\<close>

lemma arithmetic_captures:
  assumes "regex_exec arithmetic_match s = Some m"
  shows "digit_text (capture m 1) \<and> digit_text (capture m 3) \<and> digit_text (capture m 4)"
proof -
  define Q where "Q = (\<lambda>n w. n = (2::nat) \<or> digit_text w)"
  have "\<forall>(n, b) \<in> set (group_bodies arithmetic_match). \<forall>i w t. accepts b i w t \<longrightarrow> Q n w"
    by (auto simp add: arithmetic_match_def seqs_def Q_def digit_text_def)
  from regex_exec_groups [OF assms this]
  have "n \<in> set (must_groups arithmetic_match) \<longrightarrow> Q n (capture m n)" for n
    by simp
  then have "Q 1 (capture m 1) \<and> Q 3 (capture m 3) \<and> Q 4 (capture m 4)"
    by (simp add: arithmetic_match_def seqs_def)
  then show ?thesis by (simp add: Q_def)
qed

lemma digits_value_nonneg:
  assumes "list_all is_digit w" and "0 \<le> a"
  shows "0 \<le> foldl (\<lambda>a c. 10 * a + (c - 48)) a w"
  using assms by (induction w arbitrary: a) (simp_all add: is_digit_def)

lemma parseInt_digit_text:
  assumes "digit_text w"
  shows "parseInt w = fl (of_int (digits_value w)) \<and> 0 \<le> digits_value w"
proof -
  from assms have tw: "takeWhile is_digit w = w" and ne: "w \<noteq> []"
    by (simp_all add: digit_text_def list_all_iff)
  from assms have "0 \<le> digits_value w"
    using digits_value_nonneg [of w 0] by (simp add: digit_text_def digits_value_def)
  with ne show ?thesis
    unfolding parseInt_def Let_def tw by simp
qed

lemma parseInt_exact:
  assumes "digit_text w" and "digits_value w \<le> 2 ^ 53"
  shows "parseInt w = Num (of_int (digits_value w))"
proof -
  from parseInt_digit_text [OF assms(1)] assms(2)
  have "\<bar>digits_value w\<bar> \<le> 2 ^ 53" by simp
  from fl_int [OF this] parseInt_digit_text [OF assms(1)] show ?thesis by simp
qed

lemma expected_value_exact:
  assumes "regex_exec arithmetic_match s = Some m"
    and "digits_value (capture m 1) + digits_value (capture m 3) \<le> 2 ^ 53"
  shows "expected_value m =
    Num (of_int (if capture m 2 = ustr ''+''
                 then digits_value (capture m 1) + digits_value (capture m 3)
                 else digits_value (capture m 1) - digits_value (capture m 3)))"
proof -
  define A where "A = digits_value (capture m 1)"
  define B where "B = digits_value (capture m 3)"
  from arithmetic_captures [OF assms(1)]
  have d: "digit_text (capture m 1)" "digit_text (capture m 3)" by simp_all
  from parseInt_digit_text [OF d(1)] parseInt_digit_text [OF d(2)]
  have nn: "0 \<le> A" "0 \<le> B" by (simp_all add: A_def B_def)
  with assms(2) have le: "A \<le> 2 ^ 53" "B \<le> 2 ^ 53" "A + B \<le> 2 ^ 53"
    by (simp_all add: A_def B_def)
  from parseInt_exact [OF d(1)] parseInt_exact [OF d(2)] le
  have p: "parseInt (capture m 1) = Num (of_int A)" "parseInt (capture m 3) = Num (of_int B)"
    by (simp_all add: A_def B_def)
  have "\<bar>A + B\<bar> \<le> 2 ^ 53" using nn le by simp
  from fl_int [OF this] have plus: "fl (of_int A + of_int B) = Num (of_int (A + B))"
    by simp
  have "\<bar>A - B\<bar> \<le> 2 ^ 53" using nn le by simp
  from fl_int [OF this] have minus: "fl (of_int A - of_int B) = Num (of_int (A - B))"
    by simp
  have "expected_value m = Num (of_int (if capture m 2 = ustr ''+'' then A + B else A - B))"
    unfolding expected_value_def p js_add_def js_sub_def js_neg_def
    using plus minus by simp
  then show ?thesis by (simp only: A_def B_def)
qed

subsection \<open>Arithmetic mistakes\<close>

text \<open>
  Claim C4, as the code has it. For every input whose trimmed text has the shape
  \<open>N + N = N\<close> or \<open>N - N = N\<close> (it matches \<open>/^(\d+)\s*([+\-])\s*(\d+)\s*=\s*(\d+)$/\<close>)
  and whose stated result differs from the recomputed value, the heuristic validator
  answers \<open>isCorrect: false\<close> with confidence 0.95, and the \<open>feedback\<close> text shows the
  recomputed value; the result has no \<open>explanation\<close> property. The value is
  recomputed from \<open>parseInt\<close> of the operands in double arithmetic: while the sum of
  the operands and the stated result are at most \<open>2^53\<close> it is the exact sum or
  difference, and the comparison with the stated result is the comparison of the
  integers. For \<open>5 + 3 = 9\<close> the feedback reads \<open>Arithmetic error: 5 + 3 = 8, not 9\<close>.
  The sign-error detector, which runs first, never matches such an input.
\<close>

theorem arithmetic_error_in_feedback:
  "(regex_exec arithmetic_match (trim latex) = Some m \<and>
    \<not> js_eq (expected_value m) (parseInt (capture m 4)) \<longrightarrow>
      fallbackValidation rnd latex =
        \<lparr>isCorrect = False,
         feedback = code_point 0x274C @ ustr '' Arithmetic error: '' @ capture m 1 @
                    ustr '' '' @ capture m 2 @ ustr '' '' @ capture m 3 @ ustr '' = '' @
                    number_to_string (expected_value m) @ ustr '', not '' @ capture m 4,
         explanation = JUndefined,
         confidence = Num 0.95\<rparr>) \<and>
   (regex_exec arithmetic_match (trim latex) = Some m \<and>
    digits_value (capture m 1) + digits_value (capture m 3) \<le> 2 ^ 53 \<and>
    digits_value (capture m 4) \<le> 2 ^ 53 \<longrightarrow>
      expected_value m =
        Num (of_int (if capture m 2 = ustr ''+''
                     then digits_value (capture m 1) + digits_value (capture m 3)
                     else digits_value (capture m 1) - digits_value (capture m 3))) \<and>
      (js_eq (expected_value m) (parseInt (capture m 4)) \<longleftrightarrow>
         (if capture m 2 = ustr ''+''
          then digits_value (capture m 1) + digits_value (capture m 3)
          else digits_value (capture m 1) - digits_value (capture m 3)) =
         digits_value (capture m 4))) \<and>
   fallbackValidation rnd (ustr ''5 + 3 = 9'') =
     \<lparr>isCorrect = False,
      feedback = code_point 0x274C @ ustr '' Arithmetic error: 5 + 3 = 8, not 9'',
      explanation = JUndefined,
      confidence = Num 0.95\<rparr>"
proof (intro conjI impI)
  assume a: "regex_exec arithmetic_match (trim latex) = Some m \<and>
    \<not> js_eq (expected_value m) (parseInt (capture m 4))"
  then have "\<not> regex_test sign_error_test (trim latex)"
    using arithmetic_not_sign_error by blast
  with a show "fallbackValidation rnd latex =
        \<lparr>isCorrect = False,
         feedback = code_point 0x274C @ ustr '' Arithmetic error: '' @ capture m 1 @
                    ustr '' '' @ capture m 2 @ ustr '' '' @ capture m 3 @ ustr '' = '' @
                    number_to_string (expected_value m) @ ustr '', not '' @ capture m 4,
         explanation = JUndefined,
         confidence = Num 0.95\<rparr>"
    by (simp add: fallbackValidation_def checkForCommonMistakes_def trim_trim Let_def)
next
  assume a: "regex_exec arithmetic_match (trim latex) = Some m \<and>
    digits_value (capture m 1) + digits_value (capture m 3) \<le> 2 ^ 53 \<and>
    digits_value (capture m 4) \<le> 2 ^ 53"
  then have m: "regex_exec arithmetic_match (trim latex) = Some m"
    and le: "digits_value (capture m 1) + digits_value (capture m 3) \<le> 2 ^ 53"
    and le4: "digits_value (capture m 4) \<le> 2 ^ 53"
    by simp_all
  from expected_value_exact [OF m le]
  show e: "expected_value m =
        Num (of_int (if capture m 2 = ustr ''+''
                     then digits_value (capture m 1) + digits_value (capture m 3)
                     else digits_value (capture m 1) - digits_value (capture m 3)))" .
  from arithmetic_captures [OF m] have "digit_text (capture m 4)" by simp
  from parseInt_exact [OF this le4]
  show "js_eq (expected_value m) (parseInt (capture m 4)) \<longleftrightarrow>
         (if capture m 2 = ustr ''+''
          then digits_value (capture m 1) + digits_value (capture m 3)
          else digits_value (capture m 1) - digits_value (capture m 3)) =
         digits_value (capture m 4)"
    by (simp only: e js_eq_def jsnum.inject jsnum.distinct of_int_eq_iff simp_thms)
next
  show "fallbackValidation rnd (ustr ''5 + 3 = 9'') =
     \<lparr>isCorrect = False,
      feedback = code_point 0x274C @ ustr '' Arithmetic error: 5 + 3 = 8, not 9'',
      explanation = JUndefined,
      confidence = Num 0.95\<rparr>"
    by code_simp
qed

theorem arithmetic_error_in_feedback_witness:
  "regex_test arithmetic_match (trim (ustr ''11 - 3 = 7'')) \<and>
   fallbackValidation (1 / 2) (ustr ''11 - 3 = 7'') =
     \<lparr>isCorrect = False,
      feedback = code_point 0x274C @ ustr '' Arithmetic error: 11 - 3 = 8, not 7'',
      explanation = JUndefined,
      confidence = Num 0.95\<rparr>"
proof -
  have "case regex_exec arithmetic_match (trim (ustr ''11 - 3 = 7'')) of
          None \<Rightarrow> False
        | Some m \<Rightarrow> expected_value m = Num 8 \<and> parseInt (capture m 4) = Num 7 \<and>
            capture m 1 = ustr ''11'' \<and> capture m 2 = ustr ''-'' \<and>
            capture m 3 = ustr ''3'' \<and> capture m 4 = ustr ''7''"
    by code_simp
  then obtain m where m: "regex_exec arithmetic_match (trim (ustr ''11 - 3 = 7'')) = Some m"
    "expected_value m = Num 8" "parseInt (capture m 4) = Num 7" "capture m 1 = ustr ''11''"
    "capture m 2 = ustr ''-''" "capture m 3 = ustr ''3''" "capture m 4 = ustr ''7''"
    by (auto split: option.splits)
  have s: "ustr '' Arithmetic error: '' @ ustr ''11'' @ ustr '' '' @ ustr ''-'' @ ustr '' '' @
           ustr ''3'' @ ustr '' = '' @ number_to_string (Num 8) @ ustr '', not '' @ ustr ''7'' =
           ustr '' Arithmetic error: 11 - 3 = 8, not 7''"
    by code_simp
  have d: "digits_value (ustr ''11'') + digits_value (ustr ''3'') \<le> 2 ^ 53"
    "digits_value (ustr ''7'') \<le> 2 ^ 53"
    by code_simp+
  have n: "\<not> js_eq (Num 8) (Num 7)"
    by (simp add: js_eq_def)
  from m(1) have t: "regex_test arithmetic_match (trim (ustr ''11 - 3 = 7''))"
    by (simp add: regex_test_def)
  from m s d n arithmetic_error_in_feedback [of "ustr ''11 - 3 = 7''" m "1 / 2"] t
  show ?thesis by simp
qed

text \<open>
  The claim as written asks for an explanation that states the correct sum. The
  result for \<open>5 + 3 = 9\<close> has no \<open>explanation\<close> property at all.
\<close>

theorem arithmetic_error_without_explanation:
  "explanation (fallbackValidation (1 / 2) (ustr ''5 + 3 = 9'')) = JUndefined"
  by code_simp

text \<open>
  Above \<open>2^53\<close> the recomputed value is rounded: \<open>parseInt\<close> reads 9007199254740993
  as 9007199254740992, so the step below passes as correct arithmetic.
\<close>

lemma rounded_operands_pass:
  "parseInt (ustr ''9007199254740993'') = Num 9007199254740992 \<and>
   isCorrect (fallbackValidation (1 / 2) (ustr ''9007199254740993 + 0 = 9007199254740992''))"
  by code_simp

subsection \<open>Helper lemmas: the rule that wins\<close>

lemma arithmetic_erase: "erase_groups arithmetic_match = arithmetic_test"
  by (simp add: arithmetic_match_def arithmetic_test_def seqs_def)

lemma arithmetic_backref_free: "backref_free arithmetic_match"
  by (simp add: arithmetic_match_def seqs_def)

lemma arithmetic_match_iff: "regex_test arithmetic_match s = regex_test arithmetic_test s"
  using regex_test_erase_groups [OF arithmetic_backref_free] by (simp add: arithmetic_erase)

lemma pools_small:
  "int (length found_x_pool) \<le> 2 ^ 53" "int (length coefficient_pool) \<le> 2 ^ 53"
  "int (length move_term_pool) \<le> 2 ^ 53" "int (length arithmetic_pool) \<le> 2 ^ 53"
  "int (length division_pool) \<le> 2 ^ 53" "int (length verification_pool) \<le> 2 ^ 53"
  "int (length substitution_pool) \<le> 2 ^ 53" "int (length generic_pool) \<le> 2 ^ 53"
  by (simp_all add: found_x_pool_def coefficient_pool_def move_term_pool_def
      arithmetic_pool_def division_pool_def verification_pool_def substitution_pool_def
      generic_pool_def)

lemma mistakes_none:
  assumes "\<not> regex_test sign_error_test (trim latex)"
    and "\<not> arithmetic_mismatch (trim latex)"
  shows "checkForCommonMistakes (trim latex) = None"
proof (cases "regex_exec arithmetic_match (trim latex)")
  case None
  with assms(1) show ?thesis
    by (simp add: checkForCommonMistakes_def trim_trim Let_def)
next
  case (Some m)
  with assms(2) have "js_eq (expected_value m) (parseInt (capture m 4))"
    by (simp add: arithmetic_mismatch_def)
  with Some assms(1) show ?thesis
    by (simp add: checkForCommonMistakes_def trim_trim Let_def)
qed

lemma pick_pools:
  assumes "random_draw r"
  shows "pick found_x_pool r \<in> set found_x_pool"
    and "pick coefficient_pool r \<in> set coefficient_pool"
    and "pick move_term_pool r \<in> set move_term_pool"
    and "pick arithmetic_pool r \<in> set arithmetic_pool"
    and "pick division_pool r \<in> set division_pool"
    and "pick verification_pool r \<in> set verification_pool"
    and "pick substitution_pool r \<in> set substitution_pool"
    and "pick generic_pool r \<in> set generic_pool"
  by (rule pick_in_pool [OF _ _ assms], rule pools_nonempty, rule pools_small)+

lemma shape_rule_verdict:
  assumes "\<not> arithmetic_mismatch (trim s)"
  shows "isCorrect (getStepSpecificFeedback r s) = rule_verdict (shape_rule (trim s)) \<and>
    confidence (getStepSpecificFeedback r s) = rule_confidence (shape_rule (trim s))"
proof (cases "regex_test arithmetic_test (trim s)")
  case True
  then obtain m where m: "regex_exec arithmetic_match (trim s) = Some m"
    using arithmetic_match_iff [of "trim s"] by (auto simp add: regex_test_def)
  with assms have "js_eq (expected_value m) (parseInt (capture m 4))"
    by (simp add: arithmetic_mismatch_def)
  with m True show ?thesis
    by (simp add: getStepSpecificFeedback_def shape_rule_def Let_def rule_verdict_def
        rule_confidence_def)
next
  case False
  then show ?thesis
    by (simp add: getStepSpecificFeedback_def shape_rule_def Let_def rule_verdict_def
        rule_confidence_def)
qed

lemma shape_rule_feedback:
  assumes "\<not> arithmetic_mismatch (trim s)" and "random_draw r"
  shows "feedback (getStepSpecificFeedback r s) \<in> set (rule_feedback (shape_rule (trim s)) latex)"
proof -
  note pick = pick_pools [OF assms(2)]
  show ?thesis
  proof (cases "regex_test arithmetic_test (trim s)")
    case True
    then obtain m where m: "regex_exec arithmetic_match (trim s) = Some m"
      using arithmetic_match_iff [of "trim s"] by (auto simp add: regex_test_def)
    with assms(1) have "js_eq (expected_value m) (parseInt (capture m 4))"
      by (simp add: arithmetic_mismatch_def)
    with m True show ?thesis
      by (simp add: getStepSpecificFeedback_def shape_rule_def Let_def rule_feedback_def pick)
  next
    case False
    then show ?thesis
      by (simp add: getStepSpecificFeedback_def shape_rule_def Let_def rule_feedback_def pick)
  qed
qed

lemma fallback_by_rule:
  "isCorrect (fallbackValidation r latex) = rule_verdict (matched_rule latex) \<and>
   confidence (fallbackValidation r latex) = rule_confidence (matched_rule latex) \<and>
   (random_draw r \<longrightarrow>
      feedback (fallbackValidation r latex) \<in> set (rule_feedback (matched_rule latex) latex))"
proof (cases "regex_test sign_error_test (trim latex)")
  case True
  from sign_error_verdict [OF this, of r] True show ?thesis
    by (auto simp add: matched_rule_def rule_verdict_def rule_confidence_def rule_feedback_def)
next
  case no_sign: False
  show ?thesis
  proof (cases "arithmetic_mismatch (trim latex)")
    case True
    then obtain m where m: "regex_exec arithmetic_match (trim latex) = Some m"
      "\<not> js_eq (expected_value m) (parseInt (capture m 4))"
      by (auto simp add: arithmetic_mismatch_def split: option.splits)
    with no_sign have "fallbackValidation r latex =
        \<lparr>isCorrect = False,
         feedback = code_point 0x274C @ ustr '' Arithmetic error: '' @ capture m 1 @
                    ustr '' '' @ capture m 2 @ ustr '' '' @ capture m 3 @ ustr '' = '' @
                    number_to_string (expected_value m) @ ustr '', not '' @ capture m 4,
         explanation = JUndefined,
         confidence = Num 0.95\<rparr>"
      by (simp add: fallbackValidation_def checkForCommonMistakes_def trim_trim Let_def)
    with True no_sign m(1) show ?thesis
      by (simp add: matched_rule_def rule_verdict_def rule_confidence_def rule_feedback_def)
  next
    case False
    from mistakes_none [OF no_sign False]
    have none: "checkForCommonMistakes (trim latex) = None" .
    show ?thesis
    proof (cases "isValidAlgebraStep (trim latex)")
      case True
      have tt: "trim (trim latex) = trim latex" by (rule trim_trim)
      from False have nm: "\<not> arithmetic_mismatch (trim (trim latex))" by (simp add: tt)
      from True none no_sign False
      have f: "fallbackValidation r latex = getStepSpecificFeedback r (trim latex)"
        and mr: "matched_rule latex = shape_rule (trim latex)"
        by (simp_all add: fallbackValidation_def matched_rule_def Let_def)
      from shape_rule_verdict [OF nm, of r] shape_rule_feedback [OF nm, of r latex]
      show ?thesis by (simp add: f mr tt)
    next
      case False
      with none no_sign \<open>\<not> arithmetic_mismatch (trim latex)\<close> show ?thesis
        by (simp add: fallbackValidation_def matched_rule_def Let_def rule_verdict_def
            rule_confidence_def rule_feedback_def)
    qed
  qed
qed

subsection \<open>The verdict does not depend on the random draw\<close>

text \<open>
  Claim C7. Two runs of the heuristic validator on the same text, with any two
  random draws, give the same \<open>isCorrect\<close>, the same confidence and the same
  explanation: they are those of the rule that wins for the text. When the draw is a
  value of \<open>Math.random()\<close>, a double that is at least 0 and below 1, the feedback text
  is one of the texts of that rule: an entry of the \<open>encouragements\<close> array of the
  matched category, or the one message of a rule that has no array. The draw only
  chooses the wording.
\<close>

theorem heuristic_verdict_deterministic:
  "isCorrect (fallbackValidation r1 latex) = isCorrect (fallbackValidation r2 latex) \<and>
   confidence (fallbackValidation r1 latex) = confidence (fallbackValidation r2 latex) \<and>
   explanation (fallbackValidation r1 latex) = explanation (fallbackValidation r2 latex) \<and>
   isCorrect (fallbackValidation r1 latex) = rule_verdict (matched_rule latex) \<and>
   confidence (fallbackValidation r1 latex) = rule_confidence (matched_rule latex) \<and>
   (random_draw r1 \<longrightarrow>
      feedback (fallbackValidation r1 latex) \<in> set (rule_feedback (matched_rule latex) latex))"
  using fallback_verdict [of r1 latex r2] fallback_by_rule [of r1 latex] by blast

theorem heuristic_verdict_deterministic_witness:
  "random_draw (1 / 2) \<and>
   matched_rule (ustr ''x = 4'') = FoundX \<and>
   rule_feedback FoundX (ustr ''x = 4'') = found_x_pool \<and>
   feedback (fallbackValidation (1 / 2) (ustr ''x = 4'')) \<in> set found_x_pool \<and>
   isCorrect (fallbackValidation (1 / 2) (ustr ''x = 4'')) \<and>
   confidence (fallbackValidation (1 / 2) (ustr ''x = 4'')) = Num 0.95"
proof -
  have d: "random_draw (1 / 2)"
    by code_simp
  have m: "matched_rule (ustr ''x = 4'') = FoundX"
    by code_simp
  have p: "rule_feedback FoundX (ustr ''x = 4'') = found_x_pool"
    by (simp add: rule_feedback_def)
  from d heuristic_verdict_deterministic [of "1 / 2" "ustr ''x = 4''" "1 / 2"]
  show ?thesis
    by (simp add: m p rule_verdict_def rule_confidence_def)
qed

subsection \<open>The fallback score\<close>

lemma fallback_score:
  "score (fallbackSolutionEvaluation sd) =
     (let t = length (steps sd);
          c = length (filter step_isCorrect (steps sd));
          accuracy = (if t > 0 then percentage c t else Num 0)
      in if js_eq accuracy (Num 100) then Math_min (Num 100) (js_add (Math_round accuracy) (Num 10))
         else Math_round accuracy)"
  by (simp add: fallbackSolutionEvaluation_def Let_def split_beta)

lemma bonus_capped: "Math_min (Num 100) (js_add (Math_round (Num 100)) (Num 10)) = Num 100"
proof -
  have "fl (of_int 110) = Num (of_int 110)" by (rule fl_int) simp
  then show ?thesis
    by (simp add: Math_round_def js_add_def Math_min_def js_le_def)
qed

lemma fallback_score_cases:
  assumes "t = length (steps sd)" and "c = length (filter step_isCorrect (steps sd))"
  shows "(t = 0 \<longrightarrow> score (fallbackSolutionEvaluation sd) = Num 0) \<and>
    (0 < t \<and> c = t \<longrightarrow> score (fallbackSolutionEvaluation sd) = Num 100) \<and>
    (0 < t \<and> percentage c t \<noteq> Num 100 \<longrightarrow>
       score (fallbackSolutionEvaluation sd) = Math_round (percentage c t))"
proof (intro conjI impI)
  assume "t = 0"
  with assms show "score (fallbackSolutionEvaluation sd) = Num 0"
    by (simp add: fallback_score js_eq_def Math_round_def)
next
  assume "0 < t \<and> c = t"
  with assms percentage_all_correct [of t] bonus_capped
  show "score (fallbackSolutionEvaluation sd) = Num 100"
    by (simp add: fallback_score Let_def js_eq_def)
next
  assume "0 < t \<and> percentage c t \<noteq> Num 100"
  with assms show "score (fallbackSolutionEvaluation sd) = Math_round (percentage c t)"
    by (simp add: fallback_score Let_def js_eq_def)
qed

lemma nearest_integer_round:
  fixes p :: real
  assumes "\<bar>of_int n - p\<bar> \<le> 1 / 2" and "frac p \<noteq> 1 / 2"
  shows "n = round p"
proof -
  have "p \<noteq> of_int n - 1 / 2"
  proof
    assume "p = of_int n - 1 / 2"
    then have "\<lfloor>p\<rfloor> = n - 1" by (simp add: floor_unique)
    with \<open>p = of_int n - 1 / 2\<close> have "frac p = 1 / 2" by (simp add: frac_def)
    with assms(2) show False by simp
  qed
  moreover have "p \<noteq> of_int n + 1 / 2"
  proof
    assume "p = of_int n + 1 / 2"
    then have "\<lfloor>p\<rfloor> = n" by (simp add: floor_unique)
    with \<open>p = of_int n + 1 / 2\<close> have "frac p = 1 / 2" by (simp add: frac_def)
    with assms(2) show False by simp
  qed
  ultimately have "of_int n \<le> p + 1 / 2" "p + 1 / 2 < of_int n + 1"
    using assms(1) by linarith+
  then have "\<lfloor>p + 1 / 2\<rfloor> = n" by (simp add: floor_unique)
  then show ?thesis by (simp add: round_def)
qed



text \<open>
  A percentage half-way between two whole numbers: 23 of 40 is 57.5, which the
  doubles compute as 57.49999999999999, so the score is 57.
\<close>

lemma half_way_percentage:
  "percentage 23 40 = Num (5749999999999999289457264239899814128875732421875 / 10 ^ 47) \<and>
   Math_round (percentage 23 40) = Num 57"
  by code_simp

subsection \<open>Helper lemmas: substrings\<close>

lemma starts_with_iff: "starts_with s p = (\<exists>r. s = p @ r)"
  by (induction s p rule: starts_with.induct) auto

lemma str_includes_iff: "str_includes s sub = (\<exists>a b. s = a @ sub @ b)"
proof (induction s)
  case Nil
  then show ?case by auto
next
  case (Cons c cs)
  show ?case
  proof
    assume "str_includes (c # cs) sub"
    then consider "starts_with (c # cs) sub" | "str_includes cs sub" by auto
    then show "\<exists>a b. c # cs = a @ sub @ b"
    proof cases
      case 1
      then obtain r where "c # cs = [] @ sub @ r" by (auto simp add: starts_with_iff)
      then show ?thesis by blast
    next
      case 2
      with Cons.IH obtain a b where "cs = a @ sub @ b" by auto
      then have "c # cs = (c # a) @ sub @ b" by simp
      then show ?thesis by blast
    qed
  next
    assume "\<exists>a b. c # cs = a @ sub @ b"
    then obtain a b where ab: "c # cs = a @ sub @ b" by blast
    show "str_includes (c # cs) sub"
    proof (cases a)
      case Nil
      with ab have "starts_with (c # cs) sub" by (auto simp add: starts_with_iff)
      then show ?thesis by simp
    next
      case (Cons x xs)
      with ab have "cs = xs @ sub @ b" by simp
      with Cons.IH have "str_includes cs sub" by blast
      then show ?thesis by simp
    qed
  qed
qed

lemma str_includes_suffix: "str_includes s (a @ b) \<Longrightarrow> str_includes s b"
proof -
  assume "str_includes s (a @ b)"
  then obtain u v where "s = u @ (a @ b) @ v" by (auto simp add: str_includes_iff)
  then have "s = (u @ a) @ b @ v" by simp
  then show ?thesis unfolding str_includes_iff by blast
qed

subsection \<open>The keyword scan\<close>

text \<open>
  Claim C9. When the \<open>try\<close> block of \<open>parseValidationResponse\<close> gives no result (no
  brace pair, or \<open>JSON.parse\<close> or \<open>cleanFeedback\<close> threw), the step is judged by a
  search of the cleaned, lower-cased response for the substrings \<open>correct\<close>, \<open>valid\<close>
  and \<open>true\<close>: one of them present gives \<open>isCorrect: true\<close> with confidence 0.8, none
  gives \<open>isCorrect: false\<close> with confidence 0.3. A text that contains \<open>incorrect\<close>
  contains \<open>correct\<close>, so the response \<open>This step is incorrect.\<close> is judged correct.
\<close>

theorem keyword_scan_accepts_incorrect:
  "(parse_validation_json response = None \<longrightarrow>
      isCorrect (parseValidationResponse response) =
        (has_word (cleanFeedback response) ''correct'' \<or>
         has_word (cleanFeedback response) ''valid'' \<or>
         has_word (cleanFeedback response) ''true'') \<and>
      confidence (parseValidationResponse response) =
        (if isCorrect (parseValidationResponse response) then Num 0.8 else Num 0.3)) \<and>
   (has_word text ''incorrect'' \<longrightarrow> has_word text ''correct'') \<and>
   parseValidationResponse (ustr ''This step is incorrect.'') =
     \<lparr>isCorrect = True,
      feedback = code_point 0x2705 @ ustr '' This step is incorrect.'',
      explanation = JUndefined,
      confidence = Num 0.8\<rparr> \<and>
   parseValidationResponse (ustr ''Wrong sign.'') =
     \<lparr>isCorrect = False,
      feedback = code_point 0x274C @ ustr '' Wrong sign.'',
      explanation = JUndefined,
      confidence = Num 0.3\<rparr>"
proof (intro conjI impI)
  assume n: "parse_validation_json response = None"
  then show "isCorrect (parseValidationResponse response) =
        (has_word (cleanFeedback response) ''correct'' \<or>
         has_word (cleanFeedback response) ''valid'' \<or>
         has_word (cleanFeedback response) ''true'')"
    by (simp add: parseValidationResponse_def keyword_scan_def Let_def)
  from n show "confidence (parseValidationResponse response) =
        (if isCorrect (parseValidationResponse response) then Num 0.8 else Num 0.3)"
    by (simp add: parseValidationResponse_def keyword_scan_def Let_def)
next
  assume "has_word text ''incorrect''"
  moreover have "ustr ''incorrect'' = ustr ''in'' @ ustr ''correct''"
    by (simp add: ustr_def)
  ultimately show "has_word text ''correct''"
    using str_includes_suffix [of "toLowerCase text" "ustr ''in''" "ustr ''correct''"]
    by (simp add: has_word_def)
next
  show "parseValidationResponse (ustr ''This step is incorrect.'') =
     \<lparr>isCorrect = True,
      feedback = code_point 0x2705 @ ustr '' This step is incorrect.'',
      explanation = JUndefined,
      confidence = Num 0.8\<rparr>"
    by code_simp
next
  show "parseValidationResponse (ustr ''Wrong sign.'') =
     \<lparr>isCorrect = False,
      feedback = code_point 0x274C @ ustr '' Wrong sign.'',
      explanation = JUndefined,
      confidence = Num 0.3\<rparr>"
    by code_simp
qed

theorem keyword_scan_accepts_incorrect_witness:
  "parse_validation_json (ustr ''The answer is incorrect'') = None \<and>
   has_word (cleanFeedback (ustr ''The answer is incorrect'')) ''incorrect'' \<and>
   isCorrect (parseValidationResponse (ustr ''The answer is incorrect'')) = True \<and>
   confidence (parseValidationResponse (ustr ''The answer is incorrect'')) = Num 0.8"
proof -
  have n: "parse_validation_json (ustr ''The answer is incorrect'') = None"
    by code_simp
  have i: "has_word (cleanFeedback (ustr ''The answer is incorrect'')) ''incorrect''"
    by code_simp
  from n i keyword_scan_accepts_incorrect
    [of "ustr ''The answer is incorrect''" "cleanFeedback (ustr ''The answer is incorrect'')"]
  show ?thesis by simp
qed

subsection \<open>\<open>validateMathStep\<close> always returns a confidence between 0 and 1\<close>

lemma clamp_confidence_range: "in_range 0 1 (clamp_confidence n)"
  by (cases n)
    (auto simp add: in_range_def clamp_confidence_def Math_max_def Math_min_def num_or_def
      js_le_def)

lemma parse_validation_json_confidence:
  assumes "parse_validation_json response = Some res"
  shows "\<exists>n. confidence res = clamp_confidence n"
  using assms
  by (auto simp add: parse_validation_json_def Let_def split: option.splits if_splits)

lemma parseValidationResponse_confidence:
  "in_range 0 1 (confidence (parseValidationResponse response))"
proof (cases "parse_validation_json response")
  case None
  then show ?thesis
    by (simp add: parseValidationResponse_def keyword_scan_def Let_def in_range_def)
next
  case (Some res)
  with parse_validation_json_confidence [OF Some] clamp_confidence_range show ?thesis
    by (auto simp add: parseValidationResponse_def)
qed

lemma step_feedback_confidence:
  "in_range 0 1 (confidence (getStepSpecificFeedback rnd s))"
  by (simp add: getStepSpecificFeedback_def Let_def in_range_def split: option.splits)

lemma mistake_confidence:
  assumes "checkForCommonMistakes s = Some res"
  shows "in_range 0 1 (confidence res)"
  using assms
  by (auto simp add: checkForCommonMistakes_def Let_def in_range_def
      split: option.splits if_splits)

lemma fallbackValidation_confidence:
  "in_range 0 1 (confidence (fallbackValidation rnd latex))"
proof (cases "checkForCommonMistakes (trim latex)")
  case None
  with step_feedback_confidence [of rnd "trim latex"] show ?thesis
    by (simp add: fallbackValidation_def Let_def in_range_def)
next
  case (Some res)
  with mistake_confidence [OF Some] show ?thesis
    by (simp add: fallbackValidation_def Let_def)
qed

text \<open>
  Claim C1. For every \<open>latex\<close> text and every outcome of the Completion call (a
  well-formed JSON response, any other text, or a failed call), \<open>validateMathStep\<close>
  returns a result: each operation that can throw (\<open>JSON.parse\<close>, \<open>cleanFeedback\<close> on a
  value that is no string, \<open>Number\<close> on an object that hides \<open>toString\<close>, the Completion
  call itself) is inside a \<open>try\<close> whose \<open>catch\<close> goes on to a fallback that cannot throw. A response whose \<open>try\<close> block gives no
  result is answered by the keyword scan, a failed call by the heuristic validator
  or, for a blank \<open>latex\<close>, by a fixed result. The confidence of the result is a
  number, not NaN, between 0 and 1.
\<close>

theorem validateMathStep_confidence_range:
  "in_range 0 1 (confidence (validateMathStep outcome rnd latex)) \<and>
   (parse_validation_json response = None \<longrightarrow>
      validateMathStep (Responded response) rnd latex = keyword_scan response) \<and>
   validateMathStep Failed rnd latex =
     (if trim latex \<noteq> [] then fallbackValidation rnd latex
      else \<lparr>isCorrect = False,
            feedback = ustr ''Unable to validate step. Please check your internet '' @
                       ustr ''connection and try again.'',
            explanation = JUndefined,
            confidence = Num 0\<rparr>)"
proof (intro conjI impI)
  show "in_range 0 1 (confidence (validateMathStep outcome rnd latex))"
  proof (cases outcome)
    case Failed
    with fallbackValidation_confidence [of rnd latex] show ?thesis
      by (simp add: validateMathStep_def in_range_def)
  next
    case (Responded response)
    with parseValidationResponse_confidence [of response] show ?thesis
      by (simp add: validateMathStep_def)
  qed
next
  assume "parse_validation_json response = None"
  then show "validateMathStep (Responded response) rnd latex = keyword_scan response"
    by (simp add: validateMathStep_def parseValidationResponse_def)
next
  show "validateMathStep Failed rnd latex =
     (if trim latex \<noteq> [] then fallbackValidation rnd latex
      else \<lparr>isCorrect = False,
            feedback = ustr ''Unable to validate step. Please check your internet '' @
                       ustr ''connection and try again.'',
            explanation = JUndefined,
            confidence = Num 0\<rparr>)"
    by (simp add: validateMathStep_def)
qed

theorem validateMathStep_confidence_range_witness:
  "parse_validation_json (ustr ''Looks fine to me'') = None \<and>
   validateMathStep (Responded (ustr ''Looks fine to me'')) (1 / 2) (ustr ''x = 4'') =
     keyword_scan (ustr ''Looks fine to me'') \<and>
   in_range 0 1
     (confidence (validateMathStep (Responded fenced_response) (1 / 2) (ustr ''x = 4'')))"
proof -
  have "parse_validation_json (ustr ''Looks fine to me'') = None"
    by code_simp
  with validateMathStep_confidence_range
    [of "Responded fenced_response" "1 / 2" "ustr ''x = 4''" "ustr ''Looks fine to me''"]
  show ?thesis by simp
qed

subsection \<open>Helper lemmas: the score and the suggestions on every path\<close>

lemma clamp_score_range: "n \<noteq> NaN \<Longrightarrow> in_range 0 100 (clamp_score n)"
  by (cases n) (auto simp add: in_range_def clamp_score_def Math_max_def Math_min_def js_le_def)

lemma num_or_number: "num_or n (Num 0) \<noteq> NaN"
  by (simp add: num_or_def)

lemma default_suggestions_nonempty: "generateDefaultSuggestions n \<noteq> []"
  by (simp add: generateDefaultSuggestions_def)

lemma parse_malformed_ok:
  "in_range 0 100 (score (parse_malformed m)) \<and> suggestions (parse_malformed m) \<noteq> []"
  using clamp_score_range [OF num_or_number]
  by (simp add: parse_malformed_def Let_def default_suggestions_nonempty)

lemma parse_evaluation_json_ok:
  assumes "parse_evaluation_json text = Some res"
  shows "in_range 0 100 (score res) \<and> suggestions res \<noteq> []"
  using assms clamp_score_range [OF num_or_number]
  by (auto simp add: parse_evaluation_json_def Let_def default_suggestions_nonempty
      split: option.splits if_splits)

lemma parse_evaluation_text_ok:
  "in_range 0 100 (score (parse_evaluation_text response)) \<and>
   suggestions (parse_evaluation_text response) \<noteq> []"
proof (cases "regex_exec score_text_re response")
  case None
  then show ?thesis
    by (simp add: parse_evaluation_text_def Let_def default_suggestions_nonempty
        clamp_score_range)
next
  case (Some m)
  have "string_to_number (capture m 1) \<noteq> NaN" "string_to_number (capture m 2) \<noteq> NaN"
    using score_text_captures [OF Some] string_to_number_digits by blast+
  then have "string_to_number (if capture m 1 \<noteq> [] then capture m 1 else capture m 2) \<noteq> NaN"
    by simp
  with Some show ?thesis
    by (simp add: parse_evaluation_text_def Let_def default_suggestions_nonempty
        clamp_score_range)
qed

lemma parseSolutionEvaluation_ok:
  "in_range 0 100 (score (parseSolutionEvaluation response)) \<and>
   suggestions (parseSolutionEvaluation response) \<noteq> []"
  using parse_malformed_ok parse_evaluation_json_ok parse_evaluation_text_ok
  by (auto simp add: parseSolutionEvaluation_def Let_def split: option.splits)

lemma fallbackSolutionEvaluation_ok:
  "in_range 0 100 (score (fallbackSolutionEvaluation sd)) \<and>
   suggestions (fallbackSolutionEvaluation sd) \<noteq> []"
proof -
  define c where "c = length (filter step_isCorrect (steps sd))"
  define t where "t = length (steps sd)"
  have ct: "c \<le> t" by (simp add: c_def t_def)
  have s: "in_range 0 100 (score (fallbackSolutionEvaluation sd))"
  proof (cases "0 < t")
    case False
    then show ?thesis
      by (simp add: fallback_score t_def [symmetric] js_eq_def Math_round_def in_range_def)
  next
    case True
    from percentage_range [OF ct True] obtain y where
      y: "percentage c t = Num y" "0 \<le> y" "y \<le> 100"
      by blast
    show ?thesis
    proof (cases "y = 100")
      case True
      with y(1) \<open>0 < t\<close> bonus_capped show ?thesis
        by (simp add: fallback_score Let_def t_def [symmetric] c_def [symmetric] js_eq_def
            in_range_def)
    next
      case False
      from y(2,3) have "0 \<le> \<lfloor>y + 1 / 2\<rfloor>" "\<lfloor>y + 1 / 2\<rfloor> \<le> 100"
        by linarith+
      then have "(0::real) \<le> of_int \<lfloor>y + 1 / 2\<rfloor>" "of_int \<lfloor>y + 1 / 2\<rfloor> \<le> (100::real)"
        by simp_all
      with False y(1) \<open>0 < t\<close> show ?thesis
        by (simp add: fallback_score Let_def t_def [symmetric] c_def [symmetric] js_eq_def
            Math_round_def in_range_def)
    qed
  qed
  have "suggestions (fallbackSolutionEvaluation sd) \<noteq> []"
    by (simp add: fallbackSolutionEvaluation_def Let_def split_beta)
  with s show ?thesis by simp
qed

subsection \<open>Score and suggestions of an evaluation\<close>

text \<open>
  Claim C2. For every problem text and every sequence of step records, and for every
  outcome of the Completion call, the score of \<open>evaluateCompleteSolution\<close> is a number
  between 0 and 100 and the list of suggestions is not empty. This covers the flat
  \<open>"score":...\<close> text, the strict parse of a brace pair, the search for a score in the
  raw text and the failed call. A response with an empty suggestions array gets the
  default set for its score.
\<close>

theorem evaluation_score_and_suggestions:
  "in_range 0 100 (score (evaluateCompleteSolution outcome sd)) \<and>
   suggestions (evaluateCompleteSolution outcome sd) \<noteq> [] \<and>
   suggestions (evaluateCompleteSolution (Responded empty_suggestions_response) sd) =
     generateDefaultSuggestions (Num 95)"
proof (intro conjI)
  show "in_range 0 100 (score (evaluateCompleteSolution outcome sd))"
    using parseSolutionEvaluation_ok fallbackSolutionEvaluation_ok
    by (cases outcome) (simp_all add: evaluateCompleteSolution_def)
  show "suggestions (evaluateCompleteSolution outcome sd) \<noteq> []"
    using parseSolutionEvaluation_ok fallbackSolutionEvaluation_ok
    by (cases outcome) (simp_all add: evaluateCompleteSolution_def)
  show "suggestions (evaluateCompleteSolution (Responded empty_suggestions_response) sd) =
     generateDefaultSuggestions (Num 95)"
    by code_simp
qed

theorem evaluation_score_and_suggestions_witness:
  "in_range 0 100
     (score (evaluateCompleteSolution (Responded (ustr ''I would give this 85/100''))
        \<lparr>originalQuestion = ustr ''2x + 3 = 11'', steps = []\<rparr>)) \<and>
   suggestions (evaluateCompleteSolution (Responded (ustr ''I would give this 85/100''))
        \<lparr>originalQuestion = ustr ''2x + 3 = 11'', steps = []\<rparr>) \<noteq> []"
  using evaluation_score_and_suggestions
    [of "Responded (ustr ''I would give this 85/100'')"
        "\<lparr>originalQuestion = ustr ''2x + 3 = 11'', steps = []\<rparr>"]
  by simp

subsection \<open>Helper lemmas: the repairs and the brace pair\<close>

lemma escaped_re_match:
  "rmatch (escaped_re c) (i, s, g) =
     (case s of
        x # y # ys \<Rightarrow> if x = BACKSLASH \<and> y = c then [(Suc (Suc i), ys, g)] else []
      | _ \<Rightarrow> [])"
  by (auto simp add: escaped_re_def chr_def split: list.splits)

lemma replace_escaped_same:
  "replace_all_from (escaped_re c) [BACKSLASH, c] i s = s"
proof (induction "length s" arbitrary: i s rule: less_induct)
  case less
  show ?case
  proof (cases s)
    case Nil
    then show ?thesis by (simp add: escaped_re_match)
  next
    case (Cons x xs)
    show ?thesis
    proof (cases "\<exists>ys. xs = c # ys \<and> x = BACKSLASH")
      case True
      then obtain ys where ys: "xs = c # ys" "x = BACKSLASH" by blast
      have "replace_all_from (escaped_re c) [BACKSLASH, c] (Suc (Suc i)) ys = ys"
        using less [of ys "Suc (Suc i)"] Cons ys by simp
      with Cons ys show ?thesis by (simp add: escaped_re_match)
    next
      case False
      have "replace_all_from (escaped_re c) [BACKSLASH, c] (Suc i) xs = xs"
        using less [of xs "Suc i"] Cons by simp
      with Cons False show ?thesis
        by (auto simp add: escaped_re_match split: list.splits)
    qed
  qed
qed

lemma replace_quote_absent:
  "\<not> str_includes s [BACKSLASH, DQUOTE] \<Longrightarrow>
   replace_all_from (escaped_re DQUOTE) [DQUOTE] i s = s"
proof (induction s arbitrary: i)
  case Nil
  then show ?case by (simp add: escaped_re_match)
next
  case (Cons x xs)
  then have "replace_all_from (escaped_re DQUOTE) [DQUOTE] (Suc i) xs = xs" by simp
  with Cons.prems show ?case
    by (auto simp add: escaped_re_match split: list.splits)
qed

lemma repair_json_same:
  "\<not> str_includes body [BACKSLASH, DQUOTE] \<Longrightarrow> repair_json body = body"
  by (simp add: repair_json_def chain_def regex_replace_all_def replace_escaped_same
      replace_quote_absent)

lemma close_brace_hit: "rmatch close_brace (k, 125 # q, g) = [(Suc k, q, g)]"
  by (simp add: close_brace_def lit_def)

lemma close_brace_miss: "c \<noteq> 125 \<Longrightarrow> rmatch close_brace (k, c # cs, g) = []"
  by (simp add: close_brace_def lit_def)

lemma close_brace_end: "rmatch close_brace (k, [], g) = []"
  by (simp add: close_brace_def)

lemma greedy_any:
  "greedy any_char k (c # cs) g = greedy any_char (Suc k) cs g @ [(k, c # cs, g)]"
  by (simp add: any_char_def)

lemma no_close_brace:
  "125 \<notin> set q \<Longrightarrow> concat (map (rmatch close_brace) (greedy any_char k q g)) = []"
proof (induction q arbitrary: k)
  case Nil
  then show ?case by (simp add: close_brace_end)
next
  case (Cons c cs)
  then have "concat (map (rmatch close_brace) (greedy any_char (Suc k) cs g)) = []"
    and "c \<noteq> 125" by auto
  then show ?case
    by (simp del: greedy.simps add: greedy_any close_brace_miss)
qed

lemma last_close_brace:
  assumes "125 \<notin> set q"
  shows "\<exists>rest. concat (map (rmatch close_brace) (greedy any_char k (x @ 125 # q) g)) =
           (k + length x + 1, q, g) # rest"
proof (induction x arbitrary: k)
  case Nil
  have "concat (map (rmatch close_brace) (greedy any_char k (125 # q) g)) = [(Suc k, q, g)]"
    using no_close_brace [OF assms, of "Suc k" g]
    by (simp del: greedy.simps add: greedy_any close_brace_hit)
  then show ?case by simp
next
  case (Cons c cs)
  from Cons [of "Suc k"] obtain rest where
    "concat (map (rmatch close_brace) (greedy any_char (Suc k) (cs @ 125 # q) g)) =
       (Suc k + length cs + 1, q, g) # rest"
    by blast
  then have "concat (map (rmatch close_brace) (greedy any_char k ((c # cs) @ 125 # q) g)) =
      (k + length (c # cs) + 1, q, g) # (rest @ rmatch close_brace (k, (c # cs) @ 125 # q, g))"
    by (simp del: greedy.simps add: greedy_any)
  then show ?case by blast
qed

lemma json_object_match:
  assumes "125 \<notin> set q"
  shows "\<exists>rest. rmatch json_object_re (i, 123 # mid @ 125 # q, g) =
           (i + length mid + 2, q, g) # rest"
proof -
  have "rmatch json_object_re (i, 123 # mid @ 125 # q, g) =
      concat (map (rmatch close_brace) (greedy any_char (Suc i) (mid @ 125 # q) g))"
    by (simp add: json_object_re_def seqs_def lit_def close_brace_def)
  with last_close_brace [OF assms, of "Suc i" mid g] show ?thesis
    by auto
qed

lemma json_object_skip:
  "c \<noteq> 123 \<Longrightarrow> rmatch json_object_re (i, c # cs, g) = []"
  by (simp add: json_object_re_def seqs_def lit_def)

lemma json_object_exec:
  assumes "123 \<notin> set a" and "125 \<notin> set q"
  shows "\<exists>m. exec_from json_object_re i (a @ 123 # mid @ 125 # q) = Some m \<and>
           m_text m = 123 # mid @ [125]"
  using assms(1)
proof (induction a arbitrary: i)
  case Nil
  from json_object_match [OF assms(2), of i mid Map.empty] show ?case
    by auto
next
  case (Cons c cs)
  then have "c \<noteq> 123" "123 \<notin> set cs" by auto
  with Cons.IH [of "Suc i"] show ?case
    by (simp add: json_object_skip)
qed

subsection \<open>Helper lemmas: trimming and fence stripping keep the JSON text\<close>

lemma dropWhile_keeps:
  "\<not> P y \<Longrightarrow> \<exists>xs'. dropWhile P (xs @ y # ys) = xs' @ y # ys \<and> set xs' \<subseteq> set xs"
proof (induction xs)
  case Nil
  then have "dropWhile P ([] @ y # ys) = [] @ y # ys \<and> set ([]::'a list) \<subseteq> set []" by simp
  then show ?case by blast
next
  case (Cons x xs)
  from Cons.IH [OF Cons.prems] obtain xs' where
    xs': "dropWhile P (xs @ y # ys) = xs' @ y # ys" "set xs' \<subseteq> set xs" by blast
  show ?case
  proof (cases "P x")
    case True
    with xs' have "dropWhile P ((x # xs) @ y # ys) = xs' @ y # ys \<and> set xs' \<subseteq> set (x # xs)"
      by auto
    then show ?thesis by blast
  next
    case False
    then have "dropWhile P ((x # xs) @ y # ys) = (x # xs) @ y # ys \<and> set (x # xs) \<subseteq> set (x # xs)"
      by simp
    then show ?thesis by blast
  qed
qed

lemma trim_keeps:
  assumes "\<not> is_space y" and "\<not> is_space z"
  shows "\<exists>a' b'. trim (a @ y # mid @ z # b) = a' @ y # mid @ z # b' \<and>
           set a' \<subseteq> set a \<and> set b' \<subseteq> set b"
proof -
  from dropWhile_keeps [of is_space y a "mid @ z # b"] assms(1) obtain a' where
    a': "dropWhile is_space (a @ y # mid @ z # b) = a' @ y # mid @ z # b" "set a' \<subseteq> set a"
    by blast
  have r: "rev (a' @ y # mid @ z # b) = rev b @ z # rev (a' @ y # mid)"
    by simp
  from dropWhile_keeps [of is_space z "rev b" "rev (a' @ y # mid)"] assms(2) obtain b'' where
    b'': "dropWhile is_space (rev b @ z # rev (a' @ y # mid)) = b'' @ z # rev (a' @ y # mid)"
      "set b'' \<subseteq> set (rev b)"
    by blast
  have "trim (a @ y # mid @ z # b) = a' @ y # mid @ z # rev b''"
    by (simp only: trim_def a'(1) r b''(1)) simp
  moreover have "set (rev b'') \<subseteq> set b" using b''(2) by simp
  ultimately have "trim (a @ y # mid @ z # b) = a' @ y # mid @ z # rev b'' \<and>
      set a' \<subseteq> set a \<and> set (rev b'') \<subseteq> set b"
    using a'(2) by blast
  then show ?thesis by blast
qed

lemma replace_all_subset: "set (replace_all_from r [] i s) \<subseteq> set s"
proof (induction "length s" arbitrary: i s rule: less_induct)
  case less
  show ?case
  proof (cases s)
    case Nil
    then show ?thesis by (simp split: list.splits)
  next
    case (Cons c cs)
    have 1: "set (replace_all_from r [] (Suc i) cs) \<subseteq> set cs"
      using less [of cs "Suc i"] Cons by simp
    have 2: "set (replace_all_from r [] j (drop n cs)) \<subseteq> set cs" for j n
    proof -
      have "length (drop n cs) < length s" using Cons by simp
      from less [OF this, of j] set_drop_subset [of n cs] show ?thesis by blast
    qed
    from 1 2 Cons show ?thesis
      by (auto split: list.splits)
  qed
qed

lemma fence_word:
  assumes "accepts fence_re k w t"
  shows "\<exists>ws. list_all is_space ws \<and> (w = [96, 96, 96, 106, 115, 111, 110] @ ws \<or> w = ws @ [96, 96, 96])"
  using assms by (auto simp add: fence_re_def lits_def seqs_def lit_def)

lemma fence_word_no_brace:
  assumes "accepts fence_re k w t"
  shows "123 \<notin> set w"
proof -
  have "\<not> is_space 123" by (simp add: is_space_def)
  with fence_word [OF assms] show ?thesis
    by (auto simp add: list_all_iff)
qed

lemma append_split:
  "u @ v = x @ y \<Longrightarrow> (\<exists>us. u = x @ us \<and> us @ v = y) \<or> (\<exists>us. u @ us = x \<and> v = us @ y)"
  by (auto simp add: append_eq_append_conv2)

lemma fence_inside_body:
  assumes nb: "96 \<notin> set body" and lb: "last body = 125"
  shows "body = y @ x \<Longrightarrow>
    \<exists>b'. replace_all_from fence_re [] i (x @ b) = x @ b' \<and> set b' \<subseteq> set b"
proof (induction x arbitrary: i y)
  case Nil
  have "replace_all_from fence_re [] i ([] @ b) = [] @ replace_all_from fence_re [] i b \<and>
      set (replace_all_from fence_re [] i b) \<subseteq> set b"
    using replace_all_subset [of fence_re i b] by simp
  then show ?case by blast
next
  case (Cons c x')
  from Cons.prems have "body = (y @ [c]) @ x'" by simp
  from Cons.IH [OF this, of "Suc i"] obtain b' where
    b': "replace_all_from fence_re [] (Suc i) (x' @ b) = x' @ b'" "set b' \<subseteq> set b"
    by blast
  have sp: "\<not> is_space 125" by (simp add: is_space_def)
  have lx: "last (c # x') = 125" using Cons.prems lb by simp
  have inb: "set (c # x') \<subseteq> set body" using Cons.prems by auto
  have nomatch: "j \<le> i" if m: "(j, t, g) \<in> set (rmatch fence_re (i, c # x' @ b, Map.empty))"
    for j t g
  proof (rule ccontr)
    assume "\<not> j \<le> i"
    from rmatch_sound [OF m] obtain w where
      w: "c # x' @ b = w @ t" "j = i + length w" "accepts fence_re i w t" by blast
    with \<open>\<not> j \<le> i\<close> have wn: "w \<noteq> []" by auto
    from fence_word [OF w(3)] obtain ws where ws: "list_all is_space ws"
      and cases: "w = [96, 96, 96, 106, 115, 111, 110] @ ws \<or> w = ws @ [96, 96, 96]" by blast
    from cases show False
    proof
      assume "w = [96, 96, 96, 106, 115, 111, 110] @ ws"
      with w(1) have "c = 96" by simp
      with inb nb show False by auto
    next
      assume "w = ws @ [96, 96, 96]"
      with w(1) have "ws @ ([96, 96, 96] @ t) = (c # x') @ b" by simp
      from append_split [OF this] consider us where "ws = (c # x') @ us"
        | us where "ws @ us = c # x'" "[96, 96, 96] @ t = us @ b"
        by blast
      then show False
      proof cases
        case 1
        then have "last (c # x') \<in> set ws" by auto
        with ws lx sp show False by (auto simp add: list_all_iff)
      next
        case 2
        show False
        proof (cases us)
          case Nil
          with 2(1) have "last (c # x') \<in> set ws" by auto
          with ws lx sp show False by (auto simp add: list_all_iff)
        next
          case (Cons u us')
          with 2(2) have "u = 96" by simp
          with Cons 2(1) have "96 \<in> set (c # x')" by (metis in_set_conv_decomp)
          with inb nb show False by auto
        qed
      qed
    qed
  qed
  have "replace_all_from fence_re [] i ((c # x') @ b) = (c # x') @ b'"
  proof (cases "rmatch fence_re (i, c # x' @ b, Map.empty)")
    case Nil
    with b' show ?thesis by simp
  next
    case (Cons st sts)
    obtain j t g where st: "st = (j, t, g)" by (cases st)
    with Cons nomatch [of j t g] have "j \<le> i" by simp
    with Cons st b' show ?thesis by simp
  qed
  with b'(2) show ?case by blast
qed

lemma fence_before_body:
  assumes nb: "96 \<notin> set body" and lb: "last body = 125" and hb: "hd body = 123"
    and ne: "body \<noteq> []"
  shows "\<exists>a' b'. replace_all_from fence_re [] i (a @ body @ b) = a' @ body @ b' \<and>
           set a' \<subseteq> set a \<and> set b' \<subseteq> set b"
proof (induction "length a" arbitrary: i a rule: less_induct)
  case less
  show ?case
  proof (cases a)
    case Nil
    from fence_inside_body [OF nb lb, of "[]" body i b] obtain b' where
      "replace_all_from fence_re [] i (body @ b) = body @ b'" "set b' \<subseteq> set b" by auto
    with Nil have "replace_all_from fence_re [] i (a @ body @ b) = [] @ body @ b' \<and>
        set ([]::jsstring) \<subseteq> set a \<and> set b' \<subseteq> set b" by simp
    then show ?thesis by blast
  next
    case (Cons c a1)
    from less [of a1 "Suc i"] Cons obtain a2 b2 where
      keep: "replace_all_from fence_re [] (Suc i) (a1 @ body @ b) = a2 @ body @ b2"
        "set a2 \<subseteq> set a1" "set b2 \<subseteq> set b" by auto
    then have kept: "c # replace_all_from fence_re [] (Suc i) (a1 @ body @ b) =
        (c # a2) @ body @ b2 \<and> set (c # a2) \<subseteq> set a \<and> set b2 \<subseteq> set b"
      using Cons by auto
    show ?thesis
    proof (cases "rmatch fence_re (i, c # a1 @ body @ b, Map.empty)")
      case Nil
      with Cons have "replace_all_from fence_re [] i (a @ body @ b) =
          c # replace_all_from fence_re [] (Suc i) (a1 @ body @ b)" by simp
      with kept show ?thesis by metis
    next
      case (Cons st sts)
      obtain j t g where st: "st = (j, t, g)" by (cases st)
      show ?thesis
      proof (cases "j \<le> i")
        case True
        with Cons st \<open>a = c # a1\<close> have "replace_all_from fence_re [] i (a @ body @ b) =
            c # replace_all_from fence_re [] (Suc i) (a1 @ body @ b)" by simp
        with kept show ?thesis by metis
      next
        case False
        from Cons st have m: "(j, t, g) \<in> set (rmatch fence_re (i, c # a1 @ body @ b, Map.empty))"
          by simp
        from rmatch_sound [OF m] obtain w where
          w: "c # a1 @ body @ b = w @ t" "j = i + length w" "accepts fence_re i w t" by blast
        with False have wn: "w \<noteq> []" by auto
        from w(1) w(2) wn have dr: "drop (j - Suc i) (a1 @ body @ b) = t"
          by (cases w) auto
        from Cons st False \<open>a = c # a1\<close> dr have res:
          "replace_all_from fence_re [] i (a @ body @ b) = replace_all_from fence_re [] j t"
          by simp
        from w(1) have "w @ t = (c # a1) @ (body @ b)" by simp
        from append_split [OF this] consider us where "w = (c # a1) @ us" "us @ t = body @ b"
          | us where "w @ us = c # a1" "t = us @ body @ b"
          by blast
        then obtain a3 where a3: "t = a3 @ body @ b" "length a3 < length a" "set a3 \<subseteq> set a"
        proof cases
          case 1
          have "us = []"
          proof (rule ccontr)
            assume "us \<noteq> []"
            with 1(2) ne have "hd us = hd body" by (cases us; cases body) auto
            with hb \<open>us \<noteq> []\<close> 1(1) have "123 \<in> set w" by (cases us) auto
            with fence_word_no_brace [OF w(3)] show False by simp
          qed
          with 1 have "t = [] @ body @ b" by simp
          with that [of "[]"] \<open>a = c # a1\<close> show ?thesis by simp
        next
          case 2
          with wn have "length us < length (c # a1)"
            by (metis length_append length_greater_0_conv less_add_same_cancel2 add.commute)
          moreover from 2(1) have "set us \<subseteq> set (c # a1)" by (metis set_append Un_upper2)
          ultimately show ?thesis using that [of us] 2(2) \<open>a = c # a1\<close> by simp
        qed
        from less [OF a3(2), of j] obtain a4 b4 where
          "replace_all_from fence_re [] j (a3 @ body @ b) = a4 @ body @ b4"
          "set a4 \<subseteq> set a3" "set b4 \<subseteq> set b" by blast
        with res a3 have "replace_all_from fence_re [] i (a @ body @ b) = a4 @ body @ b4 \<and>
            set a4 \<subseteq> set a \<and> set b4 \<subseteq> set b" by auto
        then show ?thesis by blast
      qed
    qed
  qed
qed

lemma extract_object_embedded:
  assumes ne: "body \<noteq> []" and hb: "hd body = 123" and lb: "last body = 125"
    and nb: "96 \<notin> set body" and nq: "\<not> str_includes body [BACKSLASH, DQUOTE]"
    and na: "123 \<notin> set a" and nc: "125 \<notin> set b"
  shows "extract_object (a @ body @ b) = JSON_parse body"
proof -
  from ne hb lb obtain mid where body: "body = 123 # mid @ [125]"
  proof -
    from ne hb have 1: "body = 123 # tl body" by (cases body) auto
    with lb have "tl body \<noteq> []" by (cases "tl body") auto
    with 1 lb have "tl body = butlast (tl body) @ [125]"
      by (metis append_butlast_last_id last_tl)
    with 1 that [of "butlast (tl body)"] show ?thesis by simp
  qed
  have sp: "\<not> is_space 123" "\<not> is_space 125" by (simp_all add: is_space_def)
  from trim_keeps [OF sp, of a mid b] obtain a1 b1 where
    t: "trim (a @ body @ b) = a1 @ body @ b1" "set a1 \<subseteq> set a" "set b1 \<subseteq> set b"
    by (auto simp add: body)
  from fence_before_body [OF nb lb hb ne, of 0 a1 b1] obtain a2 b2 where
    f: "replace_all_from fence_re [] 0 (a1 @ body @ b1) = a2 @ body @ b2"
      "set a2 \<subseteq> set a1" "set b2 \<subseteq> set b1" by blast
  from t f have s: "strip_fences (a @ body @ b) = a2 @ 123 # mid @ 125 # b2"
    by (simp add: strip_fences_def regex_replace_all_def body)
  from t f na nc have "123 \<notin> set a2" "125 \<notin> set b2" by auto
  from json_object_exec [OF this, of 0 mid] obtain m where
    m: "exec_from json_object_re 0 (a2 @ 123 # mid @ 125 # b2) = Some m" "m_text m = body"
    by (auto simp add: body)
  with s nq show ?thesis
    by (simp add: extract_object_def json_candidate_def regex_exec_def repair_json_same)
qed

subsection \<open>The normalizer round trip\<close>

text \<open>
  Claim C8 as written fails: the repair that turns every backslash-quote pair into a
  quote is applied to the whole brace pair, so a well-formed object whose string
  holds an escaped quote is no longer JSON when it reaches the strict parse.
\<close>

theorem escaped_quote_round_trip_fails:
  "JSON_parse escaped_quote_json =
     Some (JObj [(ustr ''feedback'', JStr (ustr ''Say '' @ [DQUOTE] @ ustr ''hi'' @ [DQUOTE])),
                 (ustr ''isCorrect'', JBool True)]) \<and>
   extract_object (in_fence (ustr ''Here is the result:'') escaped_quote_json (ustr ''Done.'')) =
     None"
  by code_simp

text \<open>
  Claim C8, amended. Take a JSON text that starts with \<open>{\<close> and ends with \<open>}\<close>, holds
  no backslash-quote pair and no backtick, and is read by the strict parse as
  \<open>obj\<close>; put it in a \<open>json\<close> code fence after prose without \<open>{\<close> and before prose
  without \<open>}\<close>. Then the extraction (strip the fences, take the first \<open>{\<close> through the
  last \<open>}\<close>, repair, strict-parse) gives \<open>obj\<close>: the text handed to the parser is the
  JSON text itself.
\<close>

theorem fenced_object_round_trip:
  "body \<noteq> [] \<and> hd body = 123 \<and> last body = 125 \<and> 96 \<notin> set body \<and>
   \<not> str_includes body [BACKSLASH, DQUOTE] \<and>
   123 \<notin> set before \<and> 125 \<notin> set after \<and> JSON_parse body = Some obj \<longrightarrow>
   extract_object (in_fence before body after) = Some obj"
proof
  assume a: "body \<noteq> [] \<and> hd body = 123 \<and> last body = 125 \<and> 96 \<notin> set body \<and>
   \<not> str_includes body [BACKSLASH, DQUOTE] \<and>
   123 \<notin> set before \<and> 125 \<notin> set after \<and> JSON_parse body = Some obj"
  define pre where "pre = before @ [10] @ ustr ''```json'' @ [10]"
  define post where "post = [10] @ ustr ''```'' @ [10] @ after"
  from a have "123 \<notin> set pre" "125 \<notin> set post"
    by (simp_all add: pre_def post_def ustr_def)
  with a have "extract_object (pre @ body @ post) = JSON_parse body"
    using extract_object_embedded [of body pre post] by blast
  moreover have "in_fence before body after = pre @ body @ post"
    by (simp add: in_fence_def pre_def post_def)
  ultimately show "extract_object (in_fence before body after) = Some obj"
    using a by simp
qed

theorem fenced_object_round_trip_witness:
  "good_json \<noteq> [] \<and> hd good_json = 123 \<and> last good_json = 125 \<and> 96 \<notin> set good_json \<and>
   \<not> str_includes good_json [BACKSLASH, DQUOTE] \<and>
   123 \<notin> set (ustr ''Here is the result:'') \<and> 125 \<notin> set (ustr ''Done.'') \<and>
   JSON_parse good_json =
     Some (JObj [(ustr ''isCorrect'', JBool True), (ustr ''feedback'', JStr (ustr ''Good move!'')),
                 (ustr ''confidence'', JNum (fl 0.9))]) \<and>
   extract_object (in_fence (ustr ''Here is the result:'') good_json (ustr ''Done.'')) =
     Some (JObj [(ustr ''isCorrect'', JBool True), (ustr ''feedback'', JStr (ustr ''Good move!'')),
                 (ustr ''confidence'', JNum (fl 0.9))])"
proof -
  have c: "good_json \<noteq> [] \<and> hd good_json = 123 \<and> last good_json = 125 \<and>
      96 \<notin> set good_json \<and> \<not> str_includes good_json [BACKSLASH, DQUOTE] \<and>
      123 \<notin> set (ustr ''Here is the result:'') \<and> 125 \<notin> set (ustr ''Done.'') \<and>
      JSON_parse good_json =
        Some (JObj [(ustr ''isCorrect'', JBool True),
                    (ustr ''feedback'', JStr (ustr ''Good move!'')),
                    (ustr ''confidence'', JNum (fl 0.9))])"
    by code_simp
  from c fenced_object_round_trip
    [of good_json "ustr ''Here is the result:''" "ustr ''Done.''"
        "JObj [(ustr ''isCorrect'', JBool True), (ustr ''feedback'', JStr (ustr ''Good move!'')),
               (ustr ''confidence'', JNum (fl 0.9))]"]
  show ?thesis by blast
qed

end
